theory Spec2Isabelle
  imports Complex_Main "HOL-Library.Log_Nat"
begin

section \<open>Smart MediBox: the data model\<close>

text \<open>
  The sketch \<^verbatim>\<open>esp32-arduino.ino\<close> keeps all of its state in global variables and
  talks to the world through the Arduino API.  The model below makes both explicit:
  the globals are the fields of the record \<open>state\<close>, every output call (display,
  buzzer, LEDs, servo, MQTT publish, \<^verbatim>\<open>configTime\<close>) appends an \<open>event\<close> to the field
  \<open>trace\<close>, and every input is an argument: the results of successive
  \<^verbatim>\<open>wait_for_button_press()\<close> calls are a \<open>button list\<close>, the results of successive
  \<^verbatim>\<open>digitalRead(CANCEL)\<close> calls inside \<^verbatim>\<open>ring_alarm\<close> are a \<open>level list\<close>.  A function that
  waits for input returns \<open>None\<close> when the input ends before it is done: on the device it
  would still be blocked.

  C \<^verbatim>\<open>int\<close> and \<^verbatim>\<open>long\<close> values are modelled as \<open>int\<close> without the 32-bit bound: the
  model describes the runs in which no integer operation overflows (an overflow is undefined
  in C).  \<^verbatim>\<open>delay\<close> and the debug output on \<^verbatim>\<open>Serial\<close> are left out, and so are \<^verbatim>\<open>setup\<close>,
  \<^verbatim>\<open>loop\<close>, \<^verbatim>\<open>go_to_menu\<close>, \<^verbatim>\<open>update_time\<close> and the MQTT connection: the current time is the
  pair \<open>hours\<close>, \<open>minutes\<close> of the state, which \<^verbatim>\<open>update_time\<close> refreshes before each
  \<^verbatim>\<open>check_alarm\<close>.
\<close>

datatype level = LOW | HIGH

datatype button = UP | DOWN | OK | CANCEL

text \<open>A \<^verbatim>\<open>float\<close> or \<^verbatim>\<open>double\<close> value: a finite number, an infinity or not-a-number.\<close>

datatype c_float = Finite rat | PInf | NInf | NaN

record alarm =
  hours :: int
  minutes :: int
  triggered :: bool

datatype event =
    PrintLine string int int int bool
  | ClearDisplay
  | DigitalWrite int level
  | Tone int int
  | NoTone int
  | ConfigTime int int string
  | ServoWrite int
  | Publish string string

record state =
  hours :: int
  minutes :: int
  utc_offset_sec :: int
  alarm_enabled :: bool
  alarms :: "alarm list"
  current_mode :: int
  offset_angle :: int
  intensity :: c_float
  control_factor :: c_float
  trace :: "event list"

definition BUZZER :: int where "BUZZER = 5"

definition LED_1 :: int where "LED_1 = 15"

definition LED_2 :: int where "LED_2 = 2"

definition UTC_OFFSET_DST :: int where "UTC_OFFSET_DST = 0"

definition NTP_SERVER :: string where "NTP_SERVER = ''pool.ntp.org''"

definition n_alarms :: nat where "n_alarms = 3"

definition n_notes :: nat where "n_notes = 8"

definition notes_array :: "int list" where
  "notes_array = [262, 294, 330, 348, 392, 440, 494, 523]"

text \<open>The globals as the sketch initialises them, before any output.\<close>

definition init_state :: state where
  "init_state =
     \<lparr>hours = 0, minutes = 0, utc_offset_sec = 0, alarm_enabled = False,
      alarms = [\<lparr>alarm.hours = 0, alarm.minutes = 0, triggered = True\<rparr>,
                \<lparr>alarm.hours = 0, alarm.minutes = 0, triggered = True\<rparr>,
                \<lparr>alarm.hours = 0, alarm.minutes = 0, triggered = True\<rparr>],
      current_mode = 0, offset_angle = 30, intensity = Finite 0,
      control_factor = Finite (3 / 4), trace = []\<rparr>"

section \<open>Strings\<close>

text \<open>\<^verbatim>\<open>String(int)\<close>: the decimal digits, with a minus sign for a negative number.\<close>

definition digit_char :: "nat \<Rightarrow> char" where
  "digit_char d = ''0123456789'' ! d"

function dec_digits :: "nat \<Rightarrow> string" where
  "dec_digits n = (if n < 10 then [digit_char n] else dec_digits (n div 10) @ [digit_char (n mod 10)])"
  by pat_completeness auto
termination
  by (relation "measure id") auto

declare dec_digits.simps [simp del]

definition String_int :: "int \<Rightarrow> string" where
  "String_int i = (if i < 0 then CHR ''-'' # dec_digits (nat (- i)) else dec_digits (nat i))"

text \<open>\<^verbatim>\<open>str.toCharArray(buf, bufsize)\<close> copies at most \<open>bufsize - 1\<close> characters.\<close>

definition toCharArray :: "nat \<Rightarrow> string \<Rightarrow> string" where
  "toCharArray bufsize str = take (bufsize - 1) str"

section \<open>The display and the buttons\<close>

definition print_line :: "string \<Rightarrow> int \<Rightarrow> int \<Rightarrow> int \<Rightarrow> bool \<Rightarrow> state \<Rightarrow> state" where
  "print_line text column row text_size clear s =
     s\<lparr>trace := trace s @ [PrintLine text column row text_size clear]\<rparr>"

text \<open>
  \<^verbatim>\<open>wait_for_button_press\<close> polls the four pins until one reads low and returns which.
  Its successive results are the input list; with no further press it never returns.
\<close>

definition wait_for_button_press :: "button list \<Rightarrow> (button \<times> button list) option" where
  "wait_for_button_press presses =
     (case presses of [] \<Rightarrow> None | pressed # rest \<Rightarrow> Some (pressed, rest))"

lemma wait_for_button_press_length:
  "wait_for_button_press presses = Some (pressed, rest) \<Longrightarrow> length rest < length presses"
  by (cases presses) (auto simp: wait_for_button_press_def)

section \<open>Editing a value\<close>

function read_value_loop ::
  "string \<Rightarrow> int \<Rightarrow> int \<Rightarrow> int \<Rightarrow> int \<Rightarrow> state \<Rightarrow> button list
     \<Rightarrow> (int \<times> state \<times> button list) option" where
  "read_value_loop text init_value max_value min_value temp_value s presses =
     (case wait_for_button_press presses of
        None \<Rightarrow> None
      | Some (pressed, rest) \<Rightarrow>
          if pressed = UP then
            read_value_loop text init_value max_value min_value
              (if temp_value + 1 > max_value then min_value else temp_value + 1)
              (print_line (text @ String_int temp_value) 0 0 2 True s) rest
          else if pressed = DOWN then
            read_value_loop text init_value max_value min_value
              (if temp_value - 1 < min_value then max_value else temp_value - 1)
              (print_line (text @ String_int temp_value) 0 0 2 True s) rest
          else if pressed = OK then
            Some (temp_value, print_line (text @ String_int temp_value) 0 0 2 True s, rest)
          else if pressed = CANCEL then
            Some (init_value, print_line (text @ String_int temp_value) 0 0 2 True s, rest)
          else
            read_value_loop text init_value max_value min_value temp_value
              (print_line (text @ String_int temp_value) 0 0 2 True s) rest)"
  by pat_completeness auto
termination
  by (relation "measure (\<lambda>(text, init_value, max_value, min_value, temp_value, s, presses). length presses)")
     (auto dest: wait_for_button_press_length)

declare read_value_loop.simps [simp del]

definition read_value ::
  "string \<Rightarrow> int \<Rightarrow> int \<Rightarrow> int \<Rightarrow> state \<Rightarrow> button list \<Rightarrow> (int \<times> state \<times> button list) option" where
  "read_value text init_value max_value min_value s presses =
     read_value_loop text init_value max_value min_value init_value s presses"

section \<open>The menu actions\<close>

text \<open>C's \<^verbatim>\<open>/\<close> and \<^verbatim>\<open>%\<close> on integers: the quotient is truncated towards zero.\<close>

definition c_div :: "int \<Rightarrow> int \<Rightarrow> int" where
  "c_div a b = sgn a * sgn b * (\<bar>a\<bar> div \<bar>b\<bar>)"

definition c_mod :: "int \<Rightarrow> int \<Rightarrow> int" where
  "c_mod a b = a - b * c_div a b"

definition set_timezone_and_config :: "state \<Rightarrow> button list \<Rightarrow> (state \<times> button list) option" where
  "set_timezone_and_config s presses =
     (let current_offset_hours = c_div (utc_offset_sec s) 3600;
          current_offset_minutes = c_div (c_mod (utc_offset_sec s) 3600) 60
      in case read_value ''Enter offset hours: '' current_offset_hours 14 (- 12) s presses of
           None \<Rightarrow> None
         | Some (offset_hours, s1, rest1) \<Rightarrow>
             (case read_value ''Enter offset minutes: '' current_offset_minutes 59 0 s1 rest1 of
                None \<Rightarrow> None
              | Some (offset_minutes, s2, rest2) \<Rightarrow>
                  (let s3 = s2\<lparr>utc_offset_sec := offset_hours * 3600 + offset_minutes * 60\<rparr>;
                       s4 = s3\<lparr>trace := trace s3 @ [ConfigTime (utc_offset_sec s3) UTC_OFFSET_DST NTP_SERVER]\<rparr>
                   in Some (print_line (''Timezone set to '' @ String_int offset_hours @ '':''
                                          @ String_int offset_minutes) 0 0 2 True s4,
                            rest2))))"

text \<open>
  \<^verbatim>\<open>set_alarm(alarm)\<close>: the index is one of 0, 1, 2 (\<^verbatim>\<open>run_mode\<close> passes \<^verbatim>\<open>mode - 1\<close>).
  Each field is assigned as soon as its \<^verbatim>\<open>read_value\<close> call returns.
\<close>

definition set_alarm :: "nat \<Rightarrow> state \<Rightarrow> button list \<Rightarrow> (state \<times> button list) option" where
  "set_alarm alarm s presses =
     (case read_value ''Enter hour: '' (alarm.hours (alarms s ! alarm)) 23 0 s presses of
        None \<Rightarrow> None
      | Some (h, s1, rest1) \<Rightarrow>
          (let s2 = s1\<lparr>alarms := (alarms s1)[alarm := (alarms s1 ! alarm)\<lparr>alarm.hours := h\<rparr>]\<rparr>
           in case read_value ''Enter minute: '' (alarm.minutes (alarms s2 ! alarm)) 59 0 s2 rest1 of
                None \<Rightarrow> None
              | Some (m, s3, rest2) \<Rightarrow>
                  (let s4 = s3\<lparr>alarms := (alarms s3)[alarm := (alarms s3 ! alarm)\<lparr>alarm.minutes := m\<rparr>]\<rparr>;
                       s5 = s4\<lparr>alarms := (alarms s4)[alarm := (alarms s4 ! alarm)\<lparr>triggered := False\<rparr>]\<rparr>;
                       s6 = (if \<not> alarm_enabled s5 then s5\<lparr>alarm_enabled := True\<rparr> else s5)
                   in Some (print_line (''Alarm '' @ String_int (int alarm) @ '' is set to ''
                                          @ String_int (alarm.hours (alarms s6 ! alarm)) @ '':''
                                          @ String_int (alarm.minutes (alarms s6 ! alarm))) 0 0 2 True s6,
                            rest2))))"

function disable_alarms_loop :: "nat \<Rightarrow> state \<Rightarrow> state" where
  "disable_alarms_loop i s =
     (if i < n_alarms then
        disable_alarms_loop (i + 1)
          (s\<lparr>alarms := (alarms s)[i := \<lparr>alarm.hours = 0, alarm.minutes = 0, triggered = True\<rparr>]\<rparr>)
      else s)"
  by pat_completeness auto
termination
  by (relation "measure (\<lambda>(i, s). n_alarms - i)") auto

declare disable_alarms_loop.simps [simp del]

definition disable_alarms :: "state \<Rightarrow> state" where
  "disable_alarms s =
     print_line ''Alarms are disabled'' 0 0 2 True (disable_alarms_loop 0 (s\<lparr>alarm_enabled := False\<rparr>))"

definition run_mode :: "int \<Rightarrow> state \<Rightarrow> button list \<Rightarrow> (state \<times> button list) option" where
  "run_mode mode s presses =
     (if mode = 0 then set_timezone_and_config s presses
      else if mode = 1 \<or> mode = 2 \<or> mode = 3 then set_alarm (nat (mode - 1)) s presses
      else if mode = 4 then Some (disable_alarms s, presses)
      else Some (s, presses))"

section \<open>Ringing and the alarm check\<close>

text \<open>
  \<^verbatim>\<open>ring_alarm\<close> reads the Cancel pin once before each pass over the eight notes and once
  before each note.  The list holds the levels those reads return, in order; the alarm
  rings until one of them is \<open>LOW\<close>.
\<close>

function ring_alarm_notes :: "nat \<Rightarrow> state \<Rightarrow> level list \<Rightarrow> (bool \<times> state \<times> level list) option" where
  "ring_alarm_notes i s reads =
     (if i < n_notes then
        (case reads of
           [] \<Rightarrow> None
         | r # rest \<Rightarrow>
             if r = LOW then Some (True, s, rest)
             else ring_alarm_notes (i + 1)
                    (s\<lparr>trace := trace s @ [Tone BUZZER (notes_array ! i), NoTone BUZZER]\<rparr>) rest)
      else Some (False, s, reads))"
  by pat_completeness auto
termination
  by (relation "measure (\<lambda>(i, s, reads). n_notes - i)") auto

declare ring_alarm_notes.simps [simp del]

lemma ring_alarm_notes_length:
  "ring_alarm_notes i s reads = Some (canceled, s', rest) \<Longrightarrow> length rest \<le> length reads"
proof (induction i s reads rule: ring_alarm_notes.induct)
  case (1 i s reads)
  then show ?case
    by (subst (asm) (2) ring_alarm_notes.simps)
       (fastforce split: if_splits list.splits)
qed

function ring_alarm_while :: "state \<Rightarrow> level list \<Rightarrow> (state \<times> level list) option" where
  "ring_alarm_while s reads =
     (case reads of
        [] \<Rightarrow> None
      | r # rest \<Rightarrow>
          if r = HIGH then
            (case ring_alarm_notes 0 s rest of
               None \<Rightarrow> None
             | Some (canceled, s', rest') \<Rightarrow>
                 if canceled then Some (s', rest') else ring_alarm_while s' rest')
          else Some (s, rest))"
  by pat_completeness auto
termination
  by (relation "measure (\<lambda>(s, reads). length reads)")
     (auto dest: ring_alarm_notes_length)

declare ring_alarm_while.simps [simp del]

definition ring_alarm :: "state \<Rightarrow> level list \<Rightarrow> (state \<times> level list) option" where
  "ring_alarm s reads =
     (let s1 = print_line ''Medicine Time!'' 0 0 2 True s;
          s2 = s1\<lparr>trace := trace s1 @ [DigitalWrite LED_1 HIGH]\<rparr>
      in case ring_alarm_while s2 reads of
           None \<Rightarrow> None
         | Some (s3, rest) \<Rightarrow>
             Some (s3\<lparr>trace := trace s3 @ [DigitalWrite LED_1 LOW, ClearDisplay]\<rparr>, rest))"

function check_alarm_loop :: "nat \<Rightarrow> state \<Rightarrow> level list \<Rightarrow> (state \<times> level list) option" where
  "check_alarm_loop i s reads =
     (if i < n_alarms then
        (if \<not> triggered (alarms s ! i) \<and> alarm.hours (alarms s ! i) = hours s
              \<and> alarm.minutes (alarms s ! i) = minutes s then
           (case ring_alarm s reads of
              None \<Rightarrow> None
            | Some (s1, rest) \<Rightarrow>
                check_alarm_loop (i + 1)
                  (s1\<lparr>alarms := (alarms s1)[i := (alarms s1 ! i)\<lparr>triggered := True\<rparr>]\<rparr>) rest)
         else check_alarm_loop (i + 1) s reads)
      else Some (s, reads))"
  by pat_completeness auto
termination
  by (relation "measure (\<lambda>(i, s, reads). n_alarms - i)") auto

declare check_alarm_loop.simps [simp del]

definition check_alarm :: "state \<Rightarrow> level list \<Rightarrow> (state \<times> level list) option" where
  "check_alarm s reads = (if \<not> alarm_enabled s then Some (s, reads) else check_alarm_loop 0 s reads)"

section \<open>Floating point\<close>

text \<open>
  The ESP32 computes \<^verbatim>\<open>float\<close> in IEEE 754 binary32 and \<^verbatim>\<open>double\<close> in binary64, rounding
  every operation to nearest, ties to even.  A finite value is the rational it denotes
  (the sign of a zero is not kept: nothing modelled here depends on it), and \<open>fround\<close>
  rounds a rational to the format with \<open>p\<close> significant bits and exponents from
  \<open>emin\<close> to \<open>emax\<close>, overflowing to an infinity.
\<close>

definition pow2 :: "int \<Rightarrow> rat" where
  "pow2 k = (if 0 \<le> k then of_int (2 ^ nat k) else 1 / of_int (2 ^ nat (- k)))"

text \<open>For \<open>0 < x\<close>, \<open>ilog2 x\<close> is the \<open>k\<close> with \<open>2 ^ k \<le> x < 2 ^ (k + 1)\<close>.\<close>

definition ilog2 :: "rat \<Rightarrow> int" where
  "ilog2 x = (if 1 \<le> x then bitlen \<lfloor>x\<rfloor> - 1 else - bitlen (\<lceil>1 / x\<rceil> - 1))"

definition rne :: "rat \<Rightarrow> int" where
  "rne x =
     (let n = \<lfloor>x\<rfloor>; d = x - of_int n
      in if d < 1 / 2 then n else if 1 / 2 < d then n + 1 else if even n then n else n + 1)"

definition fround :: "nat \<Rightarrow> int \<Rightarrow> int \<Rightarrow> rat \<Rightarrow> c_float" where
  "fround p emin emax x =
     (if x = 0 then Finite 0
      else
        (let e = max emin (ilog2 \<bar>x\<bar>);
             q = pow2 (e - int p + 1);
             y = of_int (rne (\<bar>x\<bar> / q)) * q
         in if pow2 (emax + 1) \<le> y then (if 0 < x then PInf else NInf)
            else Finite (sgn x * y)))"

definition round32 :: "rat \<Rightarrow> c_float" where
  "round32 = fround 24 (- 126) 127"

definition round64 :: "rat \<Rightarrow> c_float" where
  "round64 = fround 53 (- 1022) 1023"

text \<open>Conversions: \<^verbatim>\<open>double\<close> to \<^verbatim>\<open>float\<close>, and \<^verbatim>\<open>int\<close> to \<^verbatim>\<open>float\<close>.\<close>

definition to_float :: "c_float \<Rightarrow> c_float" where
  "to_float x = (case x of Finite r \<Rightarrow> round32 r | PInf \<Rightarrow> PInf | NInf \<Rightarrow> NInf | NaN \<Rightarrow> NaN)"

definition int_to_float :: "int \<Rightarrow> c_float" where
  "int_to_float i = round32 (of_int i)"

text \<open>
  A \<^verbatim>\<open>float\<close> or \<^verbatim>\<open>double\<close> assigned to an \<^verbatim>\<open>int\<close> is truncated towards zero.  C defines
  the result only when the truncated value fits the 32-bit \<^verbatim>\<open>int\<close>; what the device
  stores otherwise (and for an infinity or NaN) is the parameter \<open>ub\<close>.
\<close>

definition INT_MIN :: int where "INT_MIN = - 2147483648"

definition INT_MAX :: int where "INT_MAX = 2147483647"

definition c_trunc :: "rat \<Rightarrow> int" where
  "c_trunc r = (if 0 \<le> r then \<lfloor>r\<rfloor> else \<lceil>r\<rceil>)"

definition float_to_int :: "(c_float \<Rightarrow> int) \<Rightarrow> c_float \<Rightarrow> int" where
  "float_to_int ub x =
     (case x of
        Finite r \<Rightarrow> if INT_MIN \<le> c_trunc r \<and> c_trunc r \<le> INT_MAX then c_trunc r else ub x
      | PInf \<Rightarrow> ub x | NInf \<Rightarrow> ub x | NaN \<Rightarrow> ub x)"

text \<open>One behaviour a device may have there, used for the concrete runs below: saturation.\<close>

definition saturating :: "c_float \<Rightarrow> int" where
  "saturating x =
     (case x of
        Finite r \<Rightarrow> if r < 0 then INT_MIN else INT_MAX
      | PInf \<Rightarrow> INT_MAX | NInf \<Rightarrow> INT_MIN | NaN \<Rightarrow> 0)"

fun mul_float :: "c_float \<Rightarrow> c_float \<Rightarrow> c_float" where
  "mul_float NaN b = NaN"
| "mul_float a NaN = NaN"
| "mul_float (Finite x) (Finite y) = round32 (x * y)"
| "mul_float (Finite x) PInf = (if x = 0 then NaN else if 0 < x then PInf else NInf)"
| "mul_float (Finite x) NInf = (if x = 0 then NaN else if 0 < x then NInf else PInf)"
| "mul_float PInf (Finite y) = (if y = 0 then NaN else if 0 < y then PInf else NInf)"
| "mul_float NInf (Finite y) = (if y = 0 then NaN else if 0 < y then NInf else PInf)"
| "mul_float PInf PInf = PInf"
| "mul_float PInf NInf = NInf"
| "mul_float NInf PInf = NInf"
| "mul_float NInf NInf = PInf"

fun add_float :: "c_float \<Rightarrow> c_float \<Rightarrow> c_float" where
  "add_float NaN b = NaN"
| "add_float a NaN = NaN"
| "add_float (Finite x) (Finite y) = round32 (x + y)"
| "add_float PInf NInf = NaN"
| "add_float NInf PInf = NaN"
| "add_float PInf b = PInf"
| "add_float a PInf = PInf"
| "add_float NInf b = NInf"
| "add_float a NInf = NInf"

text \<open>
  The fused multiply-add \<^verbatim>\<open>a * b + c\<close>, rounded once.  With an infinity or a NaN among the
  operands nothing is rounded, and the result is that of the product followed by the sum.
\<close>

fun fma_float :: "c_float \<Rightarrow> c_float \<Rightarrow> c_float \<Rightarrow> c_float" where
  "fma_float (Finite x) (Finite y) (Finite z) = round32 (x * y + z)"
| "fma_float (Finite x) (Finite y) c = c"
| "fma_float a b c = add_float (mul_float a b) c"

text \<open>\<^verbatim>\<open>a < b\<close> and \<^verbatim>\<open>a != b\<close>; every comparison with NaN but \<^verbatim>\<open>!=\<close> is false.\<close>

fun float_less :: "c_float \<Rightarrow> c_float \<Rightarrow> bool" where
  "float_less NaN b = False"
| "float_less a NaN = False"
| "float_less (Finite x) (Finite y) = (x < y)"
| "float_less PInf b = False"
| "float_less a NInf = False"
| "float_less a PInf = True"
| "float_less NInf b = True"

definition float_le :: "c_float \<Rightarrow> c_float \<Rightarrow> bool" where
  "float_le a b = (a \<noteq> NaN \<and> b \<noteq> NaN \<and> (a = b \<or> float_less a b))"

definition float_neq :: "c_float \<Rightarrow> c_float \<Rightarrow> bool" where
  "float_neq a b = (a = NaN \<or> b = NaN \<or> a \<noteq> b)"

section \<open>What the language leaves to the compiler and the device\<close>

text \<open>
  Three things that the program text does not fix are parameters of the model, collected
  in a \<open>platform\<close>:
  \<^item> \<open>float_to_int_ub\<close>: what a conversion to \<^verbatim>\<open>int\<close> stores for a value outside the
    \<^verbatim>\<open>int\<close> range, an infinity or a NaN (the parameter \<open>ub\<close> of \<open>float_to_int\<close>);
  \<^item> \<open>int_overflow\<close>: what an \<^verbatim>\<open>int\<close> operation yields when its exact result, the argument,
    is outside the \<^verbatim>\<open>int\<close> range (C leaves signed overflow undefined);
  \<^item> \<open>fp_contract\<close>: whether the compiler contracts a \<^verbatim>\<open>float\<close> product followed by a sum
    into one fused multiply-add, which rounds once instead of twice (C allows it, and a
    compiler does it where the processor has the instruction).
\<close>

record platform =
  float_to_int_ub :: "c_float \<Rightarrow> int"
  int_overflow :: "int \<Rightarrow> int"
  fp_contract :: bool

text \<open>\<^verbatim>\<open>a - b\<close> on \<^verbatim>\<open>int\<close>.\<close>

definition int_sub :: "platform \<Rightarrow> int \<Rightarrow> int \<Rightarrow> int" where
  "int_sub pf a b =
     (if INT_MIN \<le> a - b \<and> a - b \<le> INT_MAX then a - b else int_overflow pf (a - b))"

text \<open>
  Two platforms for the concrete runs below.  On both an \<^verbatim>\<open>int\<close> operation wraps around
  modulo \<open>2 ^ 32\<close> (two's complement) and an out-of-range conversion saturates; the first
  rounds the product and the sum separately, the second fuses them.
\<close>

definition wrap32 :: "int \<Rightarrow> int" where
  "wrap32 x = (x + 2147483648) mod 4294967296 - 2147483648"


definition fused_rounding :: platform where
  "fused_rounding =
     \<lparr>float_to_int_ub = saturating, int_overflow = wrap32, fp_contract = True\<rparr>"

section \<open>The servo\<close>

definition LIGHT_INTENSITY_TOPIC :: string where "LIGHT_INTENSITY_TOPIC = ''LIGHT_INTENSITY''"

definition SERVO_MOTOR_ANGLE_TOPIC :: string where "SERVO_MOTOR_ANGLE_TOPIC = ''SERVO_MOTOR_ANGLE''"

definition TEMPERATURE_TOPIC :: string where "TEMPERATURE_TOPIC = ''MEDIBOX_TEMPERATURE''"

definition HUMIDITY_TOPIC :: string where "HUMIDITY_TOPIC = ''MEDIBOX_HUMIDITY''"

definition SERVO_MIN_ANGLE_TOPIC :: string where "SERVO_MIN_ANGLE_TOPIC = ''SERVO_MIN_ANGLE''"

definition SERVO_CONTROL_FACTOR_TOPIC :: string where
  "SERVO_CONTROL_FACTOR_TOPIC = ''SERVO_CONTROLLING_FACTOR''"

text \<open>
  The local \<^verbatim>\<open>servo_angle\<close> of \<^verbatim>\<open>calculate_servo_position\<close>:
  \<^verbatim>\<open>offset_angle + (180 - offset_angle) * intensity * control_factor\<close>.  The difference
  is an \<^verbatim>\<open>int\<close> subtraction; it and \<open>offset_angle\<close> are converted to \<^verbatim>\<open>float\<close>; the two
  products and the sum are \<^verbatim>\<open>float\<close> operations, of which the second product and the sum
  may be fused; the result is assigned to an \<^verbatim>\<open>int\<close>.
\<close>

definition servo_angle :: "platform \<Rightarrow> state \<Rightarrow> int" where
  "servo_angle pf s =
     (let d = int_to_float (int_sub pf 180 (offset_angle s));
          p = mul_float d (intensity s);
          a = int_to_float (offset_angle s)
      in float_to_int (float_to_int_ub pf)
           (if fp_contract pf then fma_float p (control_factor s) a
            else add_float a (mul_float p (control_factor s))))"

definition calculate_servo_position :: "platform \<Rightarrow> state \<Rightarrow> state" where
  "calculate_servo_position pf s =
     s\<lparr>trace := trace s @
         [ServoWrite (servo_angle pf s),
          Publish SERVO_MOTOR_ANGLE_TOPIC (toCharArray 6 (String_int (servo_angle pf s)))]\<rparr>"

text \<open>
  \<^verbatim>\<open>receive_callback\<close>: \<open>payload\<close> is the \<^verbatim>\<open>length\<close> bytes of the message.  They are copied
  to the local array \<^verbatim>\<open>payload_array[length]\<close>, and nothing is written behind them: the
  array has no terminating zero.  \<^verbatim>\<open>atof\<close> is given the array and reads a C string, the
  bytes up to the first zero byte, so it reads on into \<open>behind\<close>, the bytes that the memory
  holds behind the array (if there is no zero byte among them, the model lets it read them
  all).  \<open>atof\<close> is the C library's parser of that string (it is not among the sources); it
  returns a \<^verbatim>\<open>double\<close>.
\<close>

definition NUL :: char where "NUL = CHR 0x00"

definition c_str :: "string \<Rightarrow> string" where
  "c_str bytes = takeWhile (\<lambda>c. c \<noteq> NUL) bytes"

definition receive_callback ::
  "(string \<Rightarrow> c_float) \<Rightarrow> platform \<Rightarrow> string \<Rightarrow> string \<Rightarrow> string \<Rightarrow> state \<Rightarrow> state" where
  "receive_callback atof pf behind topic payload s =
     (let payload_array = payload;
          s1 = (if topic = SERVO_MIN_ANGLE_TOPIC then
                  s\<lparr>offset_angle :=
                      float_to_int (float_to_int_ub pf) (atof (c_str (payload_array @ behind)))\<rparr>
                else if topic = SERVO_CONTROL_FACTOR_TOPIC then
                  s\<lparr>control_factor := to_float (atof (c_str (payload_array @ behind)))\<rparr>
                else s)
      in calculate_servo_position pf s1)"

text \<open>
  A parser for the concrete runs below, in the place of \<open>atof\<close>: it reads the decimal
  digits that the string starts with and returns the number they denote as a \<^verbatim>\<open>double\<close>, as
  \<^verbatim>\<open>atof\<close> does for a string of decimal digits.
\<close>

definition is_digit :: "char \<Rightarrow> bool" where
  "is_digit c = (48 \<le> (of_char c :: nat) \<and> (of_char c :: nat) \<le> 57)"

definition digit_value :: "char \<Rightarrow> nat" where
  "digit_value c = of_char c - 48"

definition atof_digits :: "string \<Rightarrow> c_float" where
  "atof_digits str =
     round64 (of_nat (foldl (\<lambda>n c. 10 * n + digit_value c) 0 (takeWhile is_digit str)))"

section \<open>The light sensor\<close>

text \<open>
  Modelled from the spec: the Arduino core's \<^verbatim>\<open>map\<close> is not among the sources.  The spec
  describes it as a linear rescale of the raw reading from its native range to [0, 100],
  inverted; the definition is the core's integer formula
  \<^verbatim>\<open>(x - in_min) * (out_max - out_min) / (in_max - in_min) + out_min\<close>, which returns -1 for
  an empty input range.
\<close>

definition map_long :: "int \<Rightarrow> int \<Rightarrow> int \<Rightarrow> int \<Rightarrow> int \<Rightarrow> int" where
  "map_long x in_min in_max out_min out_max =
     (let run = in_max - in_min;
          rise = out_max - out_min;
          delta = x - in_min
      in if run = 0 then - 1 else c_div (delta * rise) run + out_min)"

text \<open>
  \<^verbatim>\<open>read_intensity\<close>: \<open>analog_value\<close> is what \<^verbatim>\<open>analogRead\<close> returns, \<open>String_float\<close> is
  Arduino's \<^verbatim>\<open>String(float, decimalPlaces)\<close>.  The quotient by \<^verbatim>\<open>100.00\<close> is a \<^verbatim>\<open>double\<close>
  division, stored in the \<^verbatim>\<open>float\<close> \<^verbatim>\<open>intensity\<close>.
\<close>

definition read_intensity ::
  "platform \<Rightarrow> (c_float \<Rightarrow> nat \<Rightarrow> string) \<Rightarrow> int \<Rightarrow> state \<Rightarrow> state" where
  "read_intensity pf String_float analog_value s =
     (let prev_value = intensity s;
          s1 = s\<lparr>intensity := to_float (round64 (of_int (map_long analog_value 0 4095 100 0) / 100))\<rparr>;
          s2 = s1\<lparr>trace := trace s1 @
                 [Publish LIGHT_INTENSITY_TOPIC (toCharArray 6 (String_float (intensity s1) 2))]\<rparr>
      in if float_neq prev_value (intensity s2) then calculate_servo_position pf s2 else s2)"

section \<open>Temperature and humidity\<close>

record TempAndHumidity =
  temperature :: c_float
  humidity :: c_float

definition check_temperature_humidity ::
  "(c_float \<Rightarrow> nat \<Rightarrow> string) \<Rightarrow> TempAndHumidity \<Rightarrow> state \<Rightarrow> state" where
  "check_temperature_humidity String_float data s =
     (let (warning1, s1) =
            (if float_less (Finite 32) (temperature data) then
               (True, print_line ''Temperature HIGH'' 0 40 1 False s)
             else if float_less (temperature data) (Finite 26) then
               (True, print_line ''Temperature LOW'' 0 40 1 False s)
             else (False, s));
          (warning2, s2) =
            (if float_less (Finite 80) (humidity data) then
               (True, print_line ''Humidity HIGH'' 0 50 1 False s1)
             else if float_less (humidity data) (Finite 60) then
               (True, print_line ''Humidity LOW'' 0 50 1 False s1)
             else (warning1, s1));
          s3 = (if warning2 then
                  s2\<lparr>trace := trace s2 @ [DigitalWrite LED_2 HIGH, DigitalWrite LED_2 LOW]\<rparr>
                else s2)
      in s3\<lparr>trace := trace s3 @
              [Publish TEMPERATURE_TOPIC (toCharArray 6 (String_float (temperature data) 2)),
               Publish HUMIDITY_TOPIC (toCharArray 6 (String_float (humidity data) 2))]\<rparr>)"

section \<open>Notions used in the statements\<close>

text \<open>\<open>same_vars s s'\<close>: the two states differ at most in the trace of outputs.\<close>

definition same_vars :: "state \<Rightarrow> state \<Rightarrow> bool" where
  "same_vars s s' = (s'\<lparr>trace := trace s\<rparr> = s)"

text \<open>
  \<open>rings s\<close> counts the calls of \<^verbatim>\<open>ring_alarm\<close> recorded in the trace (each starts by
  printing its message), \<open>due s a\<close> is the condition under which \<^verbatim>\<open>check_alarm\<close> fires entry
  \<open>a\<close>, and \<open>after_cancel reads\<close> is what is left of the Cancel readings once one was low.
\<close>

definition rings :: "state \<Rightarrow> nat" where
  "rings s = length (filter (\<lambda>e. e = PrintLine ''Medicine Time!'' 0 0 2 True) (trace s))"

definition due :: "state \<Rightarrow> alarm \<Rightarrow> bool" where
  "due s a = (\<not> triggered a \<and> alarm.hours a = hours s \<and> alarm.minutes a = minutes s)"

definition after_cancel :: "level list \<Rightarrow> level list" where
  "after_cancel reads = tl (dropWhile (\<lambda>r. r = HIGH) reads)"

text \<open>\<open>emits s s' e\<close>: the run from \<open>s\<close> to \<open>s'\<close> put the event \<open>e\<close> on the trace.\<close>

definition emits :: "state \<Rightarrow> state \<Rightarrow> event \<Rightarrow> bool" where
  "emits s s' e = (e \<in> set (drop (length (trace s)) (trace s')))"


text \<open>The magnitude that \<open>fround\<close> computes for a positive argument.\<close>

definition fmag :: "nat \<Rightarrow> int \<Rightarrow> rat \<Rightarrow> rat" where
  "fmag p emin x =
     of_int (rne (x / pow2 (max emin (ilog2 x) - int p + 1))) * pow2 (max emin (ilog2 x) - int p + 1)"

section \<open>Facts about the editor\<close>

lemma read_value_loop_Nil:
  "read_value_loop text init_value max_value min_value v s [] = None"
  by (subst read_value_loop.simps) (simp add: wait_for_button_press_def)

lemma read_value_loop_UP:
  "read_value_loop text init_value max_value min_value v s (UP # rest) =
     read_value_loop text init_value max_value min_value
       (if v + 1 > max_value then min_value else v + 1)
       (print_line (text @ String_int v) 0 0 2 True s) rest"
  by (subst read_value_loop.simps) (simp add: wait_for_button_press_def)

lemma read_value_loop_DOWN:
  "read_value_loop text init_value max_value min_value v s (DOWN # rest) =
     read_value_loop text init_value max_value min_value
       (if v - 1 < min_value then max_value else v - 1)
       (print_line (text @ String_int v) 0 0 2 True s) rest"
  by (subst read_value_loop.simps) (simp add: wait_for_button_press_def)

lemma read_value_loop_OK:
  "read_value_loop text init_value max_value min_value v s (OK # rest) =
     Some (v, print_line (text @ String_int v) 0 0 2 True s, rest)"
  by (subst read_value_loop.simps) (simp add: wait_for_button_press_def)

lemma read_value_loop_CANCEL:
  "read_value_loop text init_value max_value min_value v s (CANCEL # rest) =
     Some (init_value, print_line (text @ String_int v) 0 0 2 True s, rest)"
  by (subst read_value_loop.simps) (simp add: wait_for_button_press_def)

lemmas rv_simps = read_value_loop_Nil read_value_loop_UP read_value_loop_DOWN
  read_value_loop_OK read_value_loop_CANCEL

lemma same_vars_refl [simp]: "same_vars s s"
  by (simp add: same_vars_def)

lemma same_vars_trans: "same_vars s s1 \<Longrightarrow> same_vars s1 s2 \<Longrightarrow> same_vars s s2"
  by (cases s; cases s1; cases s2) (simp add: same_vars_def)

lemma same_vars_print_line [simp]:
  "same_vars s (print_line text column row text_size clear s)"
  by (simp add: same_vars_def print_line_def)

lemma same_vars_trace [simp]: "same_vars s (s\<lparr>trace := tr\<rparr>)"
  by (simp add: same_vars_def)

lemma same_vars_fields:
  assumes "same_vars s s'"
  shows "hours s' = hours s" "minutes s' = minutes s" "utc_offset_sec s' = utc_offset_sec s"
    "alarm_enabled s' = alarm_enabled s" "alarms s' = alarms s" "current_mode s' = current_mode s"
    "offset_angle s' = offset_angle s" "intensity s' = intensity s"
    "control_factor s' = control_factor s"
  using assms by (cases s; cases s'; simp add: same_vars_def)+

lemma same_vars_eq: "same_vars s s' \<Longrightarrow> s' = s\<lparr>trace := trace s'\<rparr>"
  by (cases s; cases s') (simp add: same_vars_def)

lemma read_value_loop_presses:
  "set adj \<subseteq> {UP, DOWN} \<Longrightarrow>
   \<exists>v' s'. same_vars s s' \<and>
     (\<forall>rest. read_value_loop text init_value max_value min_value v s (adj @ rest) =
        read_value_loop text init_value max_value min_value v' s' rest)"
proof (induction adj arbitrary: v s)
  case Nil
  show ?case by (rule exI [of _ v], rule exI [of _ s]) simp
next
  case (Cons b adj)
  then have b: "b = UP \<or> b = DOWN" and adj: "set adj \<subseteq> {UP, DOWN}" by auto
  define s1 where "s1 = print_line (text @ String_int v) 0 0 2 True s"
  define v1 where "v1 = (if b = UP then (if v + 1 > max_value then min_value else v + 1)
                         else (if v - 1 < min_value then max_value else v - 1))"
  have step: "read_value_loop text init_value max_value min_value v s ((b # adj) @ rest) =
      read_value_loop text init_value max_value min_value v1 s1 (adj @ rest)" for rest
    using b by (auto simp: read_value_loop_UP read_value_loop_DOWN s1_def v1_def)
  from Cons.IH [OF adj] obtain v' s' where s': "same_vars s1 s'"
    and run: "\<forall>rest. read_value_loop text init_value max_value min_value v1 s1 (adj @ rest) =
            read_value_loop text init_value max_value min_value v' s' rest" by blast
  have "same_vars s s1" by (simp add: s1_def)
  then have "same_vars s s'" using s' by (rule same_vars_trans)
  with step run show ?case by (intro exI [of _ v'] exI [of _ s']) simp
qed

lemma read_value_loop_returns:
  assumes "set adj \<subseteq> {UP, DOWN}"
  shows "\<exists>v' s'. same_vars s s' \<and>
     (\<forall>rest. read_value_loop text init_value max_value min_value v s (adj @ OK # rest) = Some (v', s', rest)) \<and>
     (\<forall>rest. read_value_loop text init_value max_value min_value v s (adj @ CANCEL # rest) = Some (init_value, s', rest))"
proof -
  from read_value_loop_presses [OF assms] obtain v' s1
    where s1: "same_vars s s1"
      and run: "\<And>rest. read_value_loop text init_value max_value min_value v s (adj @ rest) =
        read_value_loop text init_value max_value min_value v' s1 rest" by blast
  let ?s' = "print_line (text @ String_int v') 0 0 2 True s1"
  have "same_vars s ?s'" using s1 by (rule same_vars_trans) simp
  then show ?thesis
    by (intro exI [of _ v'] exI [of _ ?s']) (simp add: run read_value_loop_OK read_value_loop_CANCEL)
qed

lemma read_value_loop_state:
  "read_value_loop text init_value max_value min_value v s presses = Some (v', s', rest) \<Longrightarrow>
   same_vars s s'"
proof (induction presses arbitrary: v s)
  case Nil
  then show ?case by (simp add: read_value_loop_Nil)
next
  case (Cons b presses)
  let ?s1 = "print_line (text @ String_int v) 0 0 2 True s"
  have *: "same_vars ?s1 s' \<Longrightarrow> same_vars s s'"
    by (rule same_vars_trans [of s ?s1]) simp_all
  show ?case
  proof (cases b)
    case UP
    with Cons.prems have "same_vars ?s1 s'"
      by (simp add: read_value_loop_UP) (erule Cons.IH)
    then show ?thesis by (rule *)
  next
    case DOWN
    with Cons.prems have "same_vars ?s1 s'"
      by (simp add: read_value_loop_DOWN) (erule Cons.IH)
    then show ?thesis by (rule *)
  next
    case OK
    with Cons.prems show ?thesis by (auto simp: read_value_loop_OK)
  next
    case CANCEL
    with Cons.prems show ?thesis by (auto simp: read_value_loop_CANCEL)
  qed
qed

lemma read_value_loop_ups:
  assumes "min_value \<le> v" "v \<le> max_value"
  shows "\<exists>s'. read_value_loop text init_value max_value min_value v s (replicate k UP @ OK # rest) =
           Some (min_value + (v - min_value + int k) mod (max_value - min_value + 1), s', rest)"
  using assms
proof (induction k arbitrary: v s)
  case 0
  then show ?case by (simp add: read_value_loop_OK)
next
  case (Suc k)
  define v1 where "v1 = (if v + 1 > max_value then min_value else v + 1)"
  define s1 where "s1 = print_line (text @ String_int v) 0 0 2 True s"
  have range: "min_value \<le> v1" "v1 \<le> max_value" using Suc.prems by (auto simp: v1_def)
  have eq: "(v1 - min_value + int k) mod (max_value - min_value + 1) =
        (v - min_value + int (Suc k)) mod (max_value - min_value + 1)"
  proof (cases "v + 1 > max_value")
    case True
    with Suc.prems have "v = max_value" by simp
    then have "v - min_value + int (Suc k) = int k + (max_value - min_value + 1)" by simp
    then have "(v - min_value + int (Suc k)) mod (max_value - min_value + 1) =
        int k mod (max_value - min_value + 1)" by (simp only: mod_add_self2)
    with True show ?thesis by (simp add: v1_def)
  next
    case False
    then show ?thesis by (simp add: v1_def algebra_simps)
  qed
  have "read_value_loop text init_value max_value min_value v s (replicate (Suc k) UP @ OK # rest) =
      read_value_loop text init_value max_value min_value v1 s1 (replicate k UP @ OK # rest)"
    by (simp add: read_value_loop_UP v1_def s1_def)
  with Suc.IH [OF range, of s1] show ?case by (simp only: eq)
qed

lemma cycle_values:
  assumes "min_value \<le> init_value" "init_value \<le> (max_value::int)"
  shows "map (\<lambda>k. min_value + (init_value - min_value + int k) mod (max_value - min_value + 1))
           [0..<nat (max_value - min_value + 1)] =
         [init_value..max_value] @ [min_value..init_value - 1]"
proof (rule nth_equalityI)
  show "length (map (\<lambda>k. min_value + (init_value - min_value + int k) mod (max_value - min_value + 1))
           [0..<nat (max_value - min_value + 1)]) =
        length ([init_value..max_value] @ [min_value..init_value - 1])"
    using assms by simp
next
  fix k
  assume "k < length (map (\<lambda>k. min_value + (init_value - min_value + int k) mod (max_value - min_value + 1))
           [0..<nat (max_value - min_value + 1)])"
  then have k': "k < nat (max_value - min_value + 1)" by simp
  then have k: "int k < max_value - min_value + 1" by simp
  show "map (\<lambda>k. min_value + (init_value - min_value + int k) mod (max_value - min_value + 1))
           [0..<nat (max_value - min_value + 1)] ! k =
        ([init_value..max_value] @ [min_value..init_value - 1]) ! k"
  proof (cases "init_value + int k \<le> max_value")
    case True
    then have "(init_value - min_value + int k) mod (max_value - min_value + 1) = init_value - min_value + int k"
      using assms by (intro mod_pos_pos_trivial) auto
    moreover have "k < length [init_value..max_value]" using True assms by simp
    ultimately show ?thesis using k k' True by (simp add: nth_append)
  next
    case False
    have "(init_value - min_value + int k) mod (max_value - min_value + 1) =
        (init_value - min_value + int k - (max_value - min_value + 1)) mod (max_value - min_value + 1)"
      by (metis minus_mod_self2)
    also have "\<dots> = init_value - min_value + int k - (max_value - min_value + 1)"
      using False assms k by (intro mod_pos_pos_trivial) auto
    finally have m: "(init_value - min_value + int k) mod (max_value - min_value + 1) =
        init_value + int k - max_value - 1" by simp
    have len: "length [init_value..max_value] = nat (max_value - init_value + 1)" by simp
    have "\<not> k < length [init_value..max_value]" using False assms by simp
    moreover have "[min_value..init_value - 1] ! (k - nat (max_value - init_value + 1)) =
        min_value + int (k - nat (max_value - init_value + 1))"
      using False assms k by (intro nth_upto) auto
    ultimately show ?thesis using k k' False assms m by (simp add: nth_append)
  qed
qed

lemma read_value_loop_terminator:
  "\<exists>b\<in>set presses. b = OK \<or> b = CANCEL \<Longrightarrow>
   \<exists>v' s'. read_value_loop text init_value max_value min_value v s presses =
     Some (v', s', tl (dropWhile (\<lambda>b. b = UP \<or> b = DOWN) presses))"
proof (induction presses arbitrary: v s)
  case Nil
  then show ?case by simp
next
  case (Cons b presses)
  show ?case
  proof (cases b)
    case UP
    with Cons.prems have "\<exists>b\<in>set presses. b = OK \<or> b = CANCEL" by auto
    from Cons.IH [OF this] UP show ?thesis by (simp add: read_value_loop_UP)
  next
    case DOWN
    with Cons.prems have "\<exists>b\<in>set presses. b = OK \<or> b = CANCEL" by auto
    from Cons.IH [OF this] DOWN show ?thesis by (simp add: read_value_loop_DOWN)
  next
    case OK
    then show ?thesis by (simp add: read_value_loop_OK)
  next
    case CANCEL
    then show ?thesis by (simp add: read_value_loop_CANCEL)
  qed
qed

lemma terminators_after_first:
  "length (filter (\<lambda>b. b = OK \<or> b = CANCEL) (tl (dropWhile (\<lambda>b. b = UP \<or> b = DOWN) presses))) =
   length (filter (\<lambda>b. b = OK \<or> b = CANCEL) presses) - 1"
proof (induction presses)
  case Nil
  then show ?case by simp
next
  case (Cons b presses)
  then show ?case by (cases b) simp_all
qed

lemma terminator_exists:
  "0 < length (filter (\<lambda>b. b = OK \<or> b = CANCEL) presses) \<Longrightarrow> \<exists>b\<in>set presses. b = OK \<or> b = CANCEL"
  by (induction presses) (auto split: if_splits)

section \<open>Facts about the menu actions\<close>

lemma read_value_state:
  "read_value text init_value max_value min_value s presses = Some (v, s', rest) \<Longrightarrow> same_vars s s'"
  unfolding read_value_def by (rule read_value_loop_state)

lemma read_value_returns:
  assumes "set adj \<subseteq> {UP, DOWN}"
  shows "\<exists>v s'. same_vars s s' \<and>
     (\<forall>rest. read_value text init_value max_value min_value s (adj @ OK # rest) = Some (v, s', rest)) \<and>
     (\<forall>rest. read_value text init_value max_value min_value s (adj @ CANCEL # rest) =
        Some (init_value, s', rest))"
  unfolding read_value_def by (rule read_value_loop_returns [OF assms])

lemma alarm_all_update:
  "(a::alarm)\<lparr>alarm.hours := h, alarm.minutes := m, triggered := t\<rparr> =
   \<lparr>alarm.hours = h, alarm.minutes = m, triggered = t\<rparr>"
  by (cases a) simp

lemma set_alarm_fields:
  assumes run: "set_alarm i s presses = Some (s', rest)" and i: "i < length (alarms s)"
  shows "\<exists>h m s1 rest1 s3.
     read_value ''Enter hour: '' (alarm.hours (alarms s ! i)) 23 0 s presses = Some (h, s1, rest1) \<and>
     read_value ''Enter minute: '' (alarm.minutes (alarms s ! i)) 59 0
       (s1\<lparr>alarms := (alarms s)[i := (alarms s ! i)\<lparr>alarm.hours := h\<rparr>]\<rparr>) rest1 = Some (m, s3, rest) \<and>
     alarms s' = (alarms s)[i := \<lparr>alarm.hours = h, alarm.minutes = m, triggered = False\<rparr>] \<and>
     alarm_enabled s' \<and> hours s' = hours s \<and> minutes s' = minutes s \<and>
     utc_offset_sec s' = utc_offset_sec s"
proof -
  from run obtain h s1 rest1
    where r1: "read_value ''Enter hour: '' (alarm.hours (alarms s ! i)) 23 0 s presses = Some (h, s1, rest1)"
    by (auto simp: set_alarm_def split: option.splits)
  from read_value_state [OF r1] have s1: "same_vars s s1" .
  have a1: "alarms s1 = alarms s" by (rule same_vars_fields [OF s1])
  define s2 where "s2 = s1\<lparr>alarms := (alarms s)[i := (alarms s ! i)\<lparr>alarm.hours := h\<rparr>]\<rparr>"
  from run r1 obtain m s3
    where r2: "read_value ''Enter minute: '' (alarm.minutes (alarms s ! i)) 59 0 s2 rest1 = Some (m, s3, rest)"
    using i by (auto simp: set_alarm_def a1 s2_def Let_def split: option.splits)
  from read_value_state [OF r2] have s3: "same_vars s2 s3" .
  have a3: "alarms s3 = (alarms s)[i := (alarms s ! i)\<lparr>alarm.hours := h\<rparr>]"
    by (simp add: same_vars_fields [OF s3] s2_def)
  have f3: "hours s3 = hours s" "minutes s3 = minutes s" "utc_offset_sec s3 = utc_offset_sec s"
    by (simp_all add: same_vars_fields [OF s3] s2_def same_vars_fields [OF s1])
  from run r1 r2 have "alarms s' = (alarms s)[i := \<lparr>alarm.hours = h, alarm.minutes = m, triggered = False\<rparr>]"
    and "alarm_enabled s'" and "hours s' = hours s3" and "minutes s' = minutes s3"
    and "utc_offset_sec s' = utc_offset_sec s3"
    using i
    by (auto simp: set_alarm_def a1 s2_def [symmetric] Let_def a3 print_line_def alarm_all_update)
  then show ?thesis
    using r1 r2 by (auto simp: s2_def f3)
qed

lemma set_timezone_and_config_fields:
  assumes run: "set_timezone_and_config s presses = Some (s', rest)"
  shows "\<exists>h m s1 rest1 s2.
     read_value ''Enter offset hours: '' (c_div (utc_offset_sec s) 3600) 14 (- 12) s presses =
       Some (h, s1, rest1) \<and>
     read_value ''Enter offset minutes: '' (c_div (c_mod (utc_offset_sec s) 3600) 60) 59 0 s1 rest1 =
       Some (m, s2, rest) \<and>
     utc_offset_sec s' = h * 3600 + m * 60 \<and> alarms s' = alarms s \<and>
     alarm_enabled s' = alarm_enabled s"
proof -
  from run obtain h s1 rest1
    where r1: "read_value ''Enter offset hours: '' (c_div (utc_offset_sec s) 3600) 14 (- 12) s presses =
       Some (h, s1, rest1)"
    by (auto simp: set_timezone_and_config_def Let_def split: option.splits)
  from run r1 obtain m s2
    where r2: "read_value ''Enter offset minutes: '' (c_div (c_mod (utc_offset_sec s) 3600) 60) 59 0 s1 rest1 =
       Some (m, s2, rest)"
    by (auto simp: set_timezone_and_config_def Let_def split: option.splits)
  from read_value_state [OF r1] read_value_state [OF r2] have "same_vars s s2"
    by (rule same_vars_trans)
  then have "alarms s2 = alarms s" "alarm_enabled s2 = alarm_enabled s"
    by (simp_all add: same_vars_fields)
  moreover from run r1 r2 have "utc_offset_sec s' = h * 3600 + m * 60"
    and "alarms s' = alarms s2" and "alarm_enabled s' = alarm_enabled s2"
    by (auto simp: set_timezone_and_config_def Let_def print_line_def)
  ultimately show ?thesis using r1 r2 by auto
qed

lemmas run_simps = read_value_def rv_simps print_line_def String_int_def dec_digits.simps
  digit_char_def Let_def

lemma set_alarm_returns:
  assumes "2 \<le> length (filter (\<lambda>b. b = OK \<or> b = CANCEL) presses)"
  shows "\<exists>s' rest. set_alarm i s presses = Some (s', rest)"
proof -
  let ?rest1 = "tl (dropWhile (\<lambda>b. b = UP \<or> b = DOWN) presses)"
  from assms have "0 < length (filter (\<lambda>b. b = OK \<or> b = CANCEL) presses)" by linarith
  then have "\<exists>b\<in>set presses. b = OK \<or> b = CANCEL" by (rule terminator_exists)
  from read_value_loop_terminator [OF this]
  obtain h s1 where r1: "read_value ''Enter hour: '' (alarm.hours (alarms s ! i)) 23 0 s presses =
      Some (h, s1, ?rest1)"
    unfolding read_value_def by blast
  from assms have "0 < length (filter (\<lambda>b. b = OK \<or> b = CANCEL) ?rest1)"
    by (simp only: terminators_after_first)
  then have "\<exists>b\<in>set ?rest1. b = OK \<or> b = CANCEL" by (rule terminator_exists)
  from read_value_loop_terminator [OF this]
  have r2: "\<exists>m s3. read_value prompt init_value 59 0 s2 ?rest1 =
      Some (m, s3, tl (dropWhile (\<lambda>b. b = UP \<or> b = DOWN) ?rest1))" for prompt init_value s2
    unfolding read_value_def by blast
  define s2 where "s2 = s1\<lparr>alarms := (alarms s1)[i := (alarms s1 ! i)\<lparr>alarm.hours := h\<rparr>]\<rparr>"
  from r2 [of "''Enter minute: ''"
      "alarm.minutes ((alarms s1)[i := (alarms s1 ! i)\<lparr>alarm.hours := h\<rparr>] ! i)" s2]
  obtain m s3 r where "read_value ''Enter minute: ''
      (alarm.minutes ((alarms s1)[i := (alarms s1 ! i)\<lparr>alarm.hours := h\<rparr>] ! i)) 59 0 s2 ?rest1 =
      Some (m, s3, r)" by blast
  then show ?thesis
    unfolding set_alarm_def r1 by (simp add: Let_def flip: s2_def)
qed

lemma three_alarms: "length (xs::alarm list) = n_alarms \<Longrightarrow> \<exists>a b c. xs = [a, b, c]"
  by (auto simp: n_alarms_def length_Suc_conv numeral_3_eq_3)

lemma disable_alarms_loop_result:
  assumes "length (alarms s) = n_alarms"
  shows "disable_alarms_loop 0 s =
     s\<lparr>alarms := replicate n_alarms \<lparr>alarm.hours = 0, alarm.minutes = 0, triggered = True\<rparr>\<rparr>"
proof -
  from three_alarms [OF assms] obtain a b c where "alarms s = [a, b, c]" by blast
  then show ?thesis
    by (simp add: disable_alarms_loop.simps n_alarms_def numeral_3_eq_3)
qed

lemma disable_alarms_result:
  assumes "length (alarms s) = n_alarms"
  shows "disable_alarms s =
     s\<lparr>alarm_enabled := False,
       alarms := replicate n_alarms \<lparr>alarm.hours = 0, alarm.minutes = 0, triggered = True\<rparr>,
       trace := trace s @ [PrintLine ''Alarms are disabled'' 0 0 2 True]\<rparr>"
proof -
  have "length (alarms (s\<lparr>alarm_enabled := False\<rparr>)) = n_alarms" using assms by simp
  from disable_alarms_loop_result [OF this] show ?thesis
    by (simp add: disable_alarms_def print_line_def)
qed

lemma set_alarm_cancel_cancel:
  assumes i: "i < length (alarms s)"
  shows "\<exists>s'. set_alarm i s (CANCEL # CANCEL # rest) = Some (s', rest) \<and>
     alarms s' = (alarms s)[i := (alarms s ! i)\<lparr>triggered := False\<rparr>] \<and> alarm_enabled s'"
proof -
  have "2 \<le> length (filter (\<lambda>b. b = OK \<or> b = CANCEL) (CANCEL # CANCEL # rest))" by simp
  from set_alarm_returns [OF this] obtain s' rest'
    where run: "set_alarm i s (CANCEL # CANCEL # rest) = Some (s', rest')" by blast
  have upd: "\<lparr>alarm.hours = alarm.hours a, alarm.minutes = alarm.minutes a, triggered = False\<rparr> =
      a\<lparr>triggered := False\<rparr>" for a :: alarm
    by (cases a) simp
  from set_alarm_fields [OF run i]
  have "rest' = rest \<and> alarms s' = (alarms s)[i := (alarms s ! i)\<lparr>triggered := False\<rparr>] \<and>
      alarm_enabled s'"
    by (auto simp: read_value_def read_value_loop_CANCEL upd)
  with run show ?thesis by auto
qed

lemma timezone_minus_half_hour:
  "\<exists>tr. set_timezone_and_config init_state (DOWN # OK # replicate 30 UP @ [OK]) =
     Some (init_state\<lparr>utc_offset_sec := - 1800, trace := tr\<rparr>, [])"
proof -
  define s1 where "s1 = print_line ''Enter offset hours: -1'' 0 0 2 True
      (print_line ''Enter offset hours: 0'' 0 0 2 True init_state)"
  have r1: "read_value ''Enter offset hours: '' 0 14 (- 12) init_state (DOWN # OK # rest) =
      Some (- 1, s1, rest)" for rest
    by (simp add: read_value_def rv_simps String_int_def dec_digits.simps digit_char_def s1_def)
  have "(0::int) \<le> 0" and "(0::int) \<le> 59" by simp_all
  from read_value_loop_ups [OF this, of "''Enter offset minutes: ''" 0 s1 30 "[]"]
  obtain s2 where r2: "read_value ''Enter offset minutes: '' 0 59 0 s1 (replicate 30 UP @ [OK]) =
      Some (30, s2, [])"
    by (auto simp: read_value_def)
  from read_value_state [OF r2] have "same_vars s1 s2" .
  moreover have "same_vars init_state s1" by (simp add: s1_def same_vars_def print_line_def)
  ultimately have "same_vars init_state s2" by (rule same_vars_trans [rotated])
  then have s2: "s2 = init_state\<lparr>trace := trace s2\<rparr>" by (rule same_vars_eq)
  have u0: "utc_offset_sec init_state = 0" by (simp add: init_state_def)
  have "set_timezone_and_config init_state (DOWN # OK # replicate 30 UP @ [OK]) =
      Some (print_line ''Timezone set to -1:30'' 0 0 2 True
              (s2\<lparr>utc_offset_sec := - 1800,
                  trace := trace s2 @ [ConfigTime (- 1800) UTC_OFFSET_DST NTP_SERVER]\<rparr>), [])"
    by (simp add: set_timezone_and_config_def u0 c_div_def c_mod_def r1 r2 String_int_def
        dec_digits.simps digit_char_def)
  also have "print_line ''Timezone set to -1:30'' 0 0 2 True
              (s2\<lparr>utc_offset_sec := - 1800,
                  trace := trace s2 @ [ConfigTime (- 1800) UTC_OFFSET_DST NTP_SERVER]\<rparr>) =
      init_state\<lparr>utc_offset_sec := - 1800,
        trace := trace s2 @ [ConfigTime (- 1800) UTC_OFFSET_DST NTP_SERVER,
                             PrintLine ''Timezone set to -1:30'' 0 0 2 True]\<rparr>"
    by (subst (1 2) s2) (simp add: print_line_def)
  finally show ?thesis by blast
qed

section \<open>Facts about ringing and the alarm check\<close>

lemma level_not_LOW [simp]: "(r \<noteq> LOW) = (r = HIGH)"
  by (cases r) simp_all

lemma ring_alarm_notes_result:
  "ring_alarm_notes i s reads = Some (canceled, s', rest) \<Longrightarrow>
   same_vars s s' \<and> rings s' = rings s \<and>
   (if canceled then rest = after_cancel reads \<and> LOW \<in> set reads
    else after_cancel rest = after_cancel reads \<and> (LOW \<in> set reads \<longleftrightarrow> LOW \<in> set rest))"
proof (induction i s reads rule: ring_alarm_notes.induct)
  case (1 i s reads)
  show ?case
  proof (cases "i < n_notes")
    case False
    with "1.prems" show ?thesis by (simp add: ring_alarm_notes.simps [of i])
  next
    case i: True
    show ?thesis
    proof (cases reads)
      case Nil
      with "1.prems" i show ?thesis by (simp add: ring_alarm_notes.simps [of i])
    next
      case (Cons r reads')
      show ?thesis
      proof (cases r)
        case LOW
        with "1.prems" i Cons show ?thesis
          by (simp add: ring_alarm_notes.simps [of i] after_cancel_def)
      next
        case HIGH
        let ?s1 = "s\<lparr>trace := trace s @ [Tone BUZZER (notes_array ! i), NoTone BUZZER]\<rparr>"
        from "1.prems" i Cons HIGH
        have "ring_alarm_notes (i + 1) ?s1 reads' = Some (canceled, s', rest)"
          by (simp add: ring_alarm_notes.simps [of i])
        from "1.IH" [OF i Cons _ this] HIGH
        have sv: "same_vars ?s1 s'" and rg: "rings s' = rings ?s1"
          and rd: "if canceled then rest = after_cancel reads' \<and> LOW \<in> set reads'
               else after_cancel rest = after_cancel reads' \<and> (LOW \<in> set reads' \<longleftrightarrow> LOW \<in> set rest)"
          by simp_all
        have "same_vars s s'" by (rule same_vars_trans [OF _ sv]) simp
        moreover have "rings s' = rings s" using rg by (simp add: rings_def)
        ultimately show ?thesis using Cons HIGH rd
          by (auto simp: after_cancel_def)
      qed
    qed
  qed
qed

lemma ring_alarm_notes_returns:
  "LOW \<in> set reads \<Longrightarrow> ring_alarm_notes i s reads \<noteq> None"
proof (induction i s reads rule: ring_alarm_notes.induct)
  case (1 i s reads)
  show ?case
  proof (cases "i < n_notes")
    case False
    then show ?thesis by (simp add: ring_alarm_notes.simps [of i])
  next
    case i: True
    from "1.prems" obtain r reads' where Cons: "reads = r # reads'" by (cases reads) auto
    show ?thesis
    proof (cases r)
      case LOW
      with i Cons show ?thesis by (simp add: ring_alarm_notes.simps [of i])
    next
      case HIGH
      with "1.prems" Cons have "LOW \<in> set reads'" by auto
      from "1.IH" [OF i Cons _ this] HIGH i Cons show ?thesis
        by (simp add: ring_alarm_notes.simps [of i])
    qed
  qed
qed

lemma ring_alarm_while_result:
  "ring_alarm_while s reads = Some (s', rest) \<Longrightarrow>
   same_vars s s' \<and> rings s' = rings s \<and> rest = after_cancel reads \<and> LOW \<in> set reads"
proof (induction s reads rule: ring_alarm_while.induct)
  case (1 s reads)
  from "1.prems" obtain r reads' where Cons: "reads = r # reads'"
    by (cases reads) (auto simp: ring_alarm_while.simps [of s])
  show ?case
  proof (cases r)
    case LOW
    with "1.prems" Cons show ?thesis
      by (simp add: ring_alarm_while.simps [of s] after_cancel_def)
  next
    case HIGH
    with "1.prems" Cons obtain canceled s1 rest1
      where nt: "ring_alarm_notes 0 s reads' = Some (canceled, s1, rest1)"
      by (auto simp: ring_alarm_while.simps [of s] split: option.splits)
    from ring_alarm_notes_result [OF nt]
    have sv: "same_vars s s1" and rg: "rings s1 = rings s"
      and rd: "if canceled then rest1 = after_cancel reads' \<and> LOW \<in> set reads'
        else after_cancel rest1 = after_cancel reads' \<and> (LOW \<in> set reads' \<longleftrightarrow> LOW \<in> set rest1)"
      by simp_all
    show ?thesis
    proof (cases canceled)
      case True
      with "1.prems" Cons HIGH nt have "s' = s1" and "rest = rest1"
        by (simp_all add: ring_alarm_while.simps [of s])
      with sv rg rd True Cons HIGH show ?thesis by (simp add: after_cancel_def)
    next
      case False
      with "1.prems" Cons HIGH nt have run: "ring_alarm_while s1 rest1 = Some (s', rest)"
        by (simp add: ring_alarm_while.simps [of s])
      have "HIGH = HIGH" by simp
      from "1.IH" [OF Cons _ nt refl refl _ run] HIGH False
      have "same_vars s1 s' \<and> rings s' = rings s1 \<and> rest = after_cancel rest1 \<and> LOW \<in> set rest1"
        by simp
      with sv rg rd False Cons HIGH show ?thesis
        by (auto simp: after_cancel_def intro: same_vars_trans)
    qed
  qed
qed

lemma ring_alarm_while_returns:
  "LOW \<in> set reads \<Longrightarrow> ring_alarm_while s reads \<noteq> None"
proof (induction s reads rule: ring_alarm_while.induct)
  case (1 s reads)
  from "1.prems" obtain r reads' where Cons: "reads = r # reads'" by (cases reads) auto
  show ?case
  proof (cases r)
    case LOW
    with Cons show ?thesis by (simp add: ring_alarm_while.simps [of s])
  next
    case HIGH
    with "1.prems" Cons have low: "LOW \<in> set reads'" by auto
    from ring_alarm_notes_returns [OF low] obtain canceled s1 rest1
      where nt: "ring_alarm_notes 0 s reads' = Some (canceled, s1, rest1)" by fastforce
    show ?thesis
    proof (cases canceled)
      case True
      with Cons HIGH nt show ?thesis by (simp add: ring_alarm_while.simps [of s])
    next
      case False
      from ring_alarm_notes_result [OF nt] False low have "LOW \<in> set rest1" by simp
      from "1.IH" [OF Cons _ nt refl refl _ this] HIGH False
      have "ring_alarm_while s1 rest1 \<noteq> None" by simp
      with Cons HIGH nt False show ?thesis by (simp add: ring_alarm_while.simps [of s])
    qed
  qed
qed

lemma ring_alarm_result:
  assumes "ring_alarm s reads = Some (s', rest)"
  shows "same_vars s s' \<and> rings s' = rings s + 1 \<and> rest = after_cancel reads \<and> LOW \<in> set reads"
proof -
  let ?s2 = "(print_line ''Medicine Time!'' 0 0 2 True s)
      \<lparr>trace := trace (print_line ''Medicine Time!'' 0 0 2 True s) @ [DigitalWrite LED_1 HIGH]\<rparr>"
  from assms obtain s3 where run: "ring_alarm_while ?s2 reads = Some (s3, rest)"
    and s': "s' = s3\<lparr>trace := trace s3 @ [DigitalWrite LED_1 LOW, ClearDisplay]\<rparr>"
    by (auto simp: ring_alarm_def Let_def split: option.splits)
  from ring_alarm_while_result [OF run]
  have sv: "same_vars ?s2 s3" and rg: "rings s3 = rings ?s2" and rest: "rest = after_cancel reads"
    and low: "LOW \<in> set reads" by simp_all
  have "same_vars s ?s2" by (simp add: same_vars_def print_line_def)
  then have "same_vars s s3" using sv by (rule same_vars_trans)
  then have "same_vars s s'" unfolding s' by (rule same_vars_trans) simp
  moreover have "rings ?s2 = rings s + 1" by (simp add: rings_def print_line_def)
  then have "rings s' = rings s + 1" using rg by (simp add: s' rings_def)
  ultimately show ?thesis using rest low by simp
qed

lemma ring_alarm_returns:
  "LOW \<in> set reads \<Longrightarrow> ring_alarm s reads \<noteq> None"
  using ring_alarm_while_returns [of reads]
  by (auto simp: ring_alarm_def Let_def split: option.splits)

lemma due_same_time:
  "hours s' = hours s \<Longrightarrow> minutes s' = minutes s \<Longrightarrow> due s' = due s"
  by (rule ext) (simp add: due_def)

lemma check_alarm_loop_idle:
  "(\<And>j. i \<le> j \<Longrightarrow> j < n_alarms \<Longrightarrow> \<not> due s (alarms s ! j)) \<Longrightarrow>
   check_alarm_loop i s reads = Some (s, reads)"
proof (induction i s reads rule: check_alarm_loop.induct)
  case (1 i s reads)
  show ?case
  proof (cases "i < n_alarms")
    case False
    then show ?thesis by (simp add: check_alarm_loop.simps [of i])
  next
    case True
    from "1.prems" [of i] True have nd: "\<not> due s (alarms s ! i)" by simp
    then have c: "\<not> (\<not> triggered (alarms s ! i) \<and> alarm.hours (alarms s ! i) = hours s \<and>
        alarm.minutes (alarms s ! i) = minutes s)" by (simp add: due_def)
    have "check_alarm_loop (i + 1) s reads = Some (s, reads)"
      by (rule "1.IH" (2) [OF True c]) (simp add: "1.prems")
    moreover have "check_alarm_loop i s reads = check_alarm_loop (i + 1) s reads"
      by (subst check_alarm_loop.simps) (simp only: True c if_True if_False)
    ultimately show ?thesis by simp
  qed
qed

lemma check_alarm_loop_result:
  "check_alarm_loop i s reads = Some (s', rest) \<Longrightarrow> length (alarms s) = n_alarms \<Longrightarrow>
   alarms s' = take i (alarms s) @
      map (\<lambda>a. if due s a then a\<lparr>triggered := True\<rparr> else a) (drop i (alarms s)) \<and>
   rings s' = rings s + length (filter (due s) (drop i (alarms s))) \<and>
   rest = (after_cancel ^^ length (filter (due s) (drop i (alarms s)))) reads \<and>
   hours s' = hours s \<and> minutes s' = minutes s \<and> alarm_enabled s' = alarm_enabled s"
proof (induction i s reads rule: check_alarm_loop.induct)
  case (1 i s reads)
  note len = \<open>length (alarms s) = n_alarms\<close>
  show ?case
  proof (cases "i < n_alarms")
    case False
    with "1.prems" show ?thesis by (simp add: check_alarm_loop.simps [of i])
  next
    case True
    then have i: "i < length (alarms s)" using len by simp
    have split: "drop i (alarms s) = alarms s ! i # drop (Suc i) (alarms s)"
      using i by (simp add: Cons_nth_drop_Suc)
    show ?thesis
    proof (cases "due s (alarms s ! i)")
      case False
      then have c: "\<not> (\<not> triggered (alarms s ! i) \<and> alarm.hours (alarms s ! i) = hours s \<and>
          alarm.minutes (alarms s ! i) = minutes s)" by (simp add: due_def)
      from "1.prems" (1) True c have run: "check_alarm_loop (i + 1) s reads = Some (s', rest)"
        by (subst (asm) check_alarm_loop.simps) simp
      from "1.IH" (2) [OF True c run len] False i show ?thesis
        by (simp add: split take_Suc_conv_app_nth)
    next
      case d: True
      then have c: "\<not> triggered (alarms s ! i) \<and> alarm.hours (alarms s ! i) = hours s \<and>
          alarm.minutes (alarms s ! i) = minutes s" by (simp add: due_def)
      from "1.prems" (1) True c obtain s1 rest1
        where ring: "ring_alarm s reads = Some (s1, rest1)"
          and run: "check_alarm_loop (i + 1)
            (s1\<lparr>alarms := (alarms s1)[i := (alarms s1 ! i)\<lparr>triggered := True\<rparr>]\<rparr>) rest1 = Some (s', rest)"
        by (subst (asm) check_alarm_loop.simps) (auto split: option.splits)
      from ring_alarm_result [OF ring]
      have sv: "same_vars s s1" and rg: "rings s1 = rings s + 1" and r1: "rest1 = after_cancel reads"
        by simp_all
      let ?s2 = "s1\<lparr>alarms := (alarms s1)[i := (alarms s1 ! i)\<lparr>triggered := True\<rparr>]\<rparr>"
      have a2: "alarms ?s2 = (alarms s)[i := (alarms s ! i)\<lparr>triggered := True\<rparr>]"
        by (simp add: same_vars_fields [OF sv])
      have len2: "length (alarms ?s2) = n_alarms" using len by (simp add: same_vars_fields [OF sv])
      have t2: "hours ?s2 = hours s" "minutes ?s2 = minutes s" "alarm_enabled ?s2 = alarm_enabled s"
        by (simp_all add: same_vars_fields [OF sv])
      have due2: "due ?s2 = due s" by (rule due_same_time) (simp_all add: t2)
      have rg2: "rings ?s2 = rings s + 1" using rg by (simp add: rings_def)
      from "1.IH" (1) [OF True c ring refl run len2]
      have "alarms s' = take (i + 1) (alarms ?s2) @
            map (\<lambda>a. if due s a then a\<lparr>triggered := True\<rparr> else a) (drop (i + 1) (alarms ?s2))"
        and "rings s' = rings ?s2 + length (filter (due s) (drop (i + 1) (alarms ?s2)))"
        and "rest = (after_cancel ^^ length (filter (due s) (drop (i + 1) (alarms ?s2)))) rest1"
        and "hours s' = hours s" "minutes s' = minutes s" "alarm_enabled s' = alarm_enabled s"
        unfolding due2 t2 by simp_all
      then show ?thesis using d i
        by (simp add: a2 rg2 r1 split take_Suc_conv_app_nth funpow_swap1 del: a2 [symmetric])
    qed
  qed
qed

lemma lows_after_cancel:
  "length (filter (\<lambda>r. r = LOW) (after_cancel reads)) = length (filter (\<lambda>r. r = LOW) reads) - 1"
  unfolding after_cancel_def
proof (induction reads)
  case Nil
  then show ?case by simp
next
  case (Cons r reads)
  then show ?case by (cases r) simp_all
qed

lemma low_exists: "0 < length (filter (\<lambda>r. r = LOW) reads) \<Longrightarrow> LOW \<in> set reads"
  by (induction reads) (auto split: if_splits)

lemma check_alarm_loop_returns:
  "length (filter (due s) (drop i (alarms s))) \<le> length (filter (\<lambda>r. r = LOW) reads) \<Longrightarrow>
   length (alarms s) = n_alarms \<Longrightarrow> check_alarm_loop i s reads \<noteq> None"
proof (induction i s reads rule: check_alarm_loop.induct)
  case (1 i s reads)
  note len = \<open>length (alarms s) = n_alarms\<close>
  show ?case
  proof (cases "i < n_alarms")
    case False
    then show ?thesis by (simp add: check_alarm_loop.simps [of i])
  next
    case True
    then have i: "i < length (alarms s)" using len by simp
    have split: "drop i (alarms s) = alarms s ! i # drop (Suc i) (alarms s)"
      using i by (simp add: Cons_nth_drop_Suc)
    show ?thesis
    proof (cases "due s (alarms s ! i)")
      case False
      then have c: "\<not> (\<not> triggered (alarms s ! i) \<and> alarm.hours (alarms s ! i) = hours s \<and>
          alarm.minutes (alarms s ! i) = minutes s)" by (simp add: due_def)
      from "1.prems" (1) False
      have "length (filter (due s) (drop (i + 1) (alarms s))) \<le> length (filter (\<lambda>r. r = LOW) reads)"
        by (simp add: split)
      from "1.IH" (2) [OF True c this len]
      have "check_alarm_loop (i + 1) s reads \<noteq> None" .
      moreover have "check_alarm_loop i s reads = check_alarm_loop (i + 1) s reads"
        by (subst check_alarm_loop.simps) (simp only: True c if_True if_False)
      ultimately show ?thesis by simp
    next
      case d: True
      then have c: "\<not> triggered (alarms s ! i) \<and> alarm.hours (alarms s ! i) = hours s \<and>
          alarm.minutes (alarms s ! i) = minutes s" by (simp add: due_def)
      from "1.prems" (1) d
      have cnt: "Suc (length (filter (due s) (drop (Suc i) (alarms s)))) \<le>
          length (filter (\<lambda>r. r = LOW) reads)"
        by (simp add: split)
      then have "0 < length (filter (\<lambda>r. r = LOW) reads)" by linarith
      then have "LOW \<in> set reads" by (rule low_exists)
      from ring_alarm_returns [OF this] obtain s1 rest1
        where ring: "ring_alarm s reads = Some (s1, rest1)" by fastforce
      from ring_alarm_result [OF ring]
      have sv: "same_vars s s1" and r1: "rest1 = after_cancel reads" by simp_all
      let ?s2 = "s1\<lparr>alarms := (alarms s1)[i := (alarms s1 ! i)\<lparr>triggered := True\<rparr>]\<rparr>"
      have a2: "alarms ?s2 = (alarms s)[i := (alarms s ! i)\<lparr>triggered := True\<rparr>]"
        by (simp add: same_vars_fields [OF sv])
      have len2: "length (alarms ?s2) = n_alarms" using len by (simp add: same_vars_fields [OF sv])
      have due2: "due ?s2 = due s"
        by (rule due_same_time) (simp_all add: same_vars_fields [OF sv])
      have "length (filter (due ?s2) (drop (i + 1) (alarms ?s2))) \<le>
          length (filter (\<lambda>r. r = LOW) rest1)"
        unfolding due2 a2 r1 lows_after_cancel using cnt by simp
      from "1.IH" (1) [OF True c ring refl this len2]
      have "check_alarm_loop (i + 1) ?s2 rest1 \<noteq> None" .
      moreover have "check_alarm_loop i s reads = check_alarm_loop (i + 1) ?s2 rest1"
        by (subst check_alarm_loop.simps) (simp add: True c ring)
      ultimately show ?thesis by simp
    qed
  qed
qed

lemma check_alarm_result:
  assumes run: "check_alarm s reads = Some (s', rest)" and en: "alarm_enabled s"
    and len: "length (alarms s) = n_alarms"
  shows "alarms s' = map (\<lambda>a. if due s a then a\<lparr>triggered := True\<rparr> else a) (alarms s)"
    and "rings s' = rings s + length (filter (due s) (alarms s))"
    and "hours s' = hours s" and "minutes s' = minutes s" and "alarm_enabled s'"
    and "check_alarm s' rest = Some (s', rest)"
proof -
  from run en have "check_alarm_loop 0 s reads = Some (s', rest)" by (simp add: check_alarm_def)
  from check_alarm_loop_result [OF this len] en
  show a: "alarms s' = map (\<lambda>a. if due s a then a\<lparr>triggered := True\<rparr> else a) (alarms s)"
    and "rings s' = rings s + length (filter (due s) (alarms s))"
    and t: "hours s' = hours s" "minutes s' = minutes s" and en': "alarm_enabled s'"
    by simp_all
  have "\<not> due s' (alarms s' ! j)" if "j < n_alarms" for j
    using that len by (simp add: a due_same_time [OF t]) (simp add: due_def)
  then have "check_alarm_loop 0 s' rest = Some (s', rest)" by (intro check_alarm_loop_idle) simp
  with en' show "check_alarm s' rest = Some (s', rest)" by (simp add: check_alarm_def)
qed

lemma rearmed_alarm_rings:
  assumes i: "i < n_alarms" and en: "alarm_enabled s'"
    and a: "alarms s' = (replicate n_alarms \<lparr>alarm.hours = 0, alarm.minutes = 0, triggered = True\<rparr>)
        [i := \<lparr>alarm.hours = 0, alarm.minutes = 0, triggered = False\<rparr>]"
  shows "\<exists>s''. check_alarm (s'\<lparr>hours := 0, minutes := 0\<rparr>) (LOW # reads) = Some (s'', reads) \<and>
     rings s'' = rings s' + 1"
proof -
  let ?t = "s'\<lparr>hours := 0, minutes := 0\<rparr>"
  have len: "length (alarms ?t) = n_alarms" by (simp add: a)
  from i have "i = 0 \<or> i = 1 \<or> i = 2" by (auto simp: n_alarms_def)
  then have one: "length (filter (due ?t) (alarms ?t)) = 1"
    by (auto simp: a n_alarms_def numeral_3_eq_3 due_def)
  then have "length (filter (due ?t) (drop 0 (alarms ?t))) \<le> length (filter (\<lambda>r. r = LOW) (LOW # reads))"
    by simp
  from check_alarm_loop_returns [OF this len] obtain s'' rest
    where run: "check_alarm_loop 0 ?t (LOW # reads) = Some (s'', rest)" by auto
  from check_alarm_loop_result [OF run len] one
  have "rings s'' = rings ?t + 1" and "rest = after_cancel (LOW # reads)" by simp_all
  then have "rings s'' = rings s' + 1" and "rest = reads" by (simp_all add: rings_def after_cancel_def)
  with run en show ?thesis by (simp add: check_alarm_def)
qed

lemmas alarm_run_simps = check_alarm_def check_alarm_loop.simps ring_alarm_def
  ring_alarm_while.simps ring_alarm_notes.simps n_alarms_def n_notes_def print_line_def Let_def

section \<open>Facts about rounding\<close>

lemma pow2_powi: "pow2 k = 2 powi k"
  by (simp add: pow2_def power_int_def inverse_eq_divide power_one_over)

lemma pow2_pos [simp]: "0 < pow2 k"
  by (simp add: pow2_powi zero_less_power_int)

lemma pow2_nonneg [simp]: "0 \<le> pow2 k"
  by (rule less_imp_le) simp

lemma pow2_neq0 [simp]: "pow2 k \<noteq> 0"
  by (simp add: pow2_powi)

lemma pow2_add: "pow2 (a + b) = pow2 a * pow2 b"
  by (simp add: pow2_powi power_int_add)

lemma pow2_mono: "a \<le> b \<Longrightarrow> pow2 a \<le> pow2 b"
  by (simp add: pow2_powi power_int_increasing)

lemma pow2_strict_mono: "a < b \<Longrightarrow> pow2 a < pow2 b"
  by (simp add: pow2_powi power_int_strict_increasing)

lemma pow2_nat: "pow2 (int n) = 2 ^ n"
  by (simp add: pow2_def)

lemma ilog2_bounds:
  assumes "0 < x"
  shows "pow2 (ilog2 x) \<le> x" and "x < pow2 (ilog2 x + 1)"
proof -
  show "pow2 (ilog2 x) \<le> x"
  proof (cases "1 \<le> x")
    case True
    then have n: "0 < \<lfloor>x\<rfloor>" by linarith
    from bitlen_bounds [OF n] have "2 ^ nat (bitlen \<lfloor>x\<rfloor> - 1) \<le> \<lfloor>x\<rfloor>" by simp
    then have "(2::rat) ^ nat (bitlen \<lfloor>x\<rfloor> - 1) \<le> of_int \<lfloor>x\<rfloor>"
      by (metis of_int_le_iff of_int_numeral of_int_power)
    also have "\<dots> \<le> x" by simp
    finally have "(2::rat) ^ nat (bitlen \<lfloor>x\<rfloor> - 1) \<le> x" .
    moreover have "0 \<le> bitlen \<lfloor>x\<rfloor> - 1" using n by (simp add: bitlen_alt_def)
    ultimately show ?thesis using True by (simp add: ilog2_def pow2_def)
  next
    case False
    with assms have "1 < 1 / x" by simp
    then have n: "0 < \<lceil>1 / x\<rceil> - 1" by linarith
    from bitlen_bounds [OF n] have "\<lceil>1 / x\<rceil> - 1 < 2 ^ nat (bitlen (\<lceil>1 / x\<rceil> - 1))" by simp
    then have "\<lceil>1 / x\<rceil> \<le> 2 ^ nat (bitlen (\<lceil>1 / x\<rceil> - 1))" by simp
    then have "of_int \<lceil>1 / x\<rceil> \<le> (2::rat) ^ nat (bitlen (\<lceil>1 / x\<rceil> - 1))"
      by (metis of_int_le_iff of_int_numeral of_int_power)
    moreover have "1 / x \<le> of_int \<lceil>1 / x\<rceil>" by simp
    ultimately have "1 / x \<le> (2::rat) ^ nat (bitlen (\<lceil>1 / x\<rceil> - 1))" by linarith
    then have "1 / 2 ^ nat (bitlen (\<lceil>1 / x\<rceil> - 1)) \<le> x"
      using assms by (simp add: field_simps)
    moreover have "0 < bitlen (\<lceil>1 / x\<rceil> - 1)" using n by (simp add: bitlen_alt_def)
    ultimately show ?thesis using False by (simp add: ilog2_def pow2_def)
  qed
  show "x < pow2 (ilog2 x + 1)"
  proof (cases "1 \<le> x")
    case True
    then have n: "0 < \<lfloor>x\<rfloor>" by linarith
    from bitlen_bounds [OF n] have "\<lfloor>x\<rfloor> + 1 \<le> 2 ^ nat (bitlen \<lfloor>x\<rfloor>)" by simp
    then have "of_int (\<lfloor>x\<rfloor> + 1) \<le> (2::rat) ^ nat (bitlen \<lfloor>x\<rfloor>)"
      by (metis of_int_le_iff of_int_numeral of_int_power)
    moreover have "x < of_int (\<lfloor>x\<rfloor> + 1)" by linarith
    ultimately have "x < (2::rat) ^ nat (bitlen \<lfloor>x\<rfloor>)" by linarith
    moreover have "0 \<le> bitlen \<lfloor>x\<rfloor>" by (rule bitlen_nonneg)
    ultimately show ?thesis using True by (simp add: ilog2_def pow2_def)
  next
    case False
    with assms have x1: "1 < 1 / x" by simp
    then have n: "0 < \<lceil>1 / x\<rceil> - 1" by linarith
    let ?b = "bitlen (\<lceil>1 / x\<rceil> - 1)"
    have b: "0 < ?b" using n by (simp add: bitlen_alt_def)
    from bitlen_bounds [OF n] have "2 ^ nat (?b - 1) \<le> \<lceil>1 / x\<rceil> - 1" by simp
    then have "(2::rat) ^ nat (?b - 1) \<le> of_int (\<lceil>1 / x\<rceil> - 1)"
      by (metis of_int_le_iff of_int_numeral of_int_power)
    moreover have "of_int (\<lceil>1 / x\<rceil> - 1) < 1 / x" by linarith
    ultimately have "(2::rat) ^ nat (?b - 1) < 1 / x" by linarith
    then have lt: "x < 1 / 2 ^ nat (?b - 1)"
      using assms by (simp add: field_simps)
    show ?thesis
    proof (cases "?b = 1")
      case True
      with lt False show ?thesis by (simp add: ilog2_def pow2_def)
    next
      case False
      with b have "- ?b + 1 < 0" and "nat (- (- ?b + 1)) = nat (?b - 1)" by simp_all
      with lt \<open>\<not> 1 \<le> x\<close> show ?thesis by (simp add: ilog2_def pow2_def)
    qed
  qed
qed

lemma ilog2_mono:
  assumes "0 < x" and "x \<le> y"
  shows "ilog2 x \<le> ilog2 y"
proof (rule ccontr)
  assume "\<not> ilog2 x \<le> ilog2 y"
  then have "ilog2 y + 1 \<le> ilog2 x" by simp
  then have "pow2 (ilog2 y + 1) \<le> pow2 (ilog2 x)" by (rule pow2_mono)
  also have "\<dots> \<le> x" using assms(1) by (rule ilog2_bounds)
  also note \<open>x \<le> y\<close>
  also have "y < pow2 (ilog2 y + 1)" using assms by (intro ilog2_bounds) simp
  finally show False by simp
qed

lemma rne_of_int [simp]: "rne (of_int n) = n"
  by (simp add: rne_def)

lemma rne_cases: "rne x = \<lfloor>x\<rfloor> \<or> rne x = \<lfloor>x\<rfloor> + 1"
  by (simp add: rne_def Let_def)

lemma rne_mono:
  assumes "x \<le> y"
  shows "rne x \<le> rne y"
proof (cases "\<lfloor>x\<rfloor> = \<lfloor>y\<rfloor>")
  case False
  with assms have "\<lfloor>x\<rfloor> + 1 \<le> \<lfloor>y\<rfloor>" using floor_mono [of x y] by simp
  moreover have "rne x \<le> \<lfloor>x\<rfloor> + 1" using rne_cases [of x] by auto
  moreover have "\<lfloor>y\<rfloor> \<le> rne y" using rne_cases [of y] by auto
  ultimately show ?thesis by simp
next
  case True
  with assms have "x - of_int \<lfloor>x\<rfloor> \<le> y - of_int \<lfloor>y\<rfloor>" by simp
  with True show ?thesis by (auto simp: rne_def Let_def)
qed

lemma rne_ge: "of_int n \<le> x \<Longrightarrow> n \<le> rne x"
  using rne_mono [of "of_int n" x] by simp

lemma rne_le: "x \<le> of_int n \<Longrightarrow> rne x \<le> n"
  using rne_mono [of x "of_int n"] by simp

lemma fround_fmag:
  "fround p emin emax x =
     (if x = 0 then Finite 0
      else if pow2 (emax + 1) \<le> fmag p emin \<bar>x\<bar> then (if 0 < x then PInf else NInf)
      else Finite (sgn x * fmag p emin \<bar>x\<bar>))"
  by (simp add: fround_def fmag_def Let_def)

lemma fmag_nonneg: "0 \<le> x \<Longrightarrow> 0 \<le> fmag p emin x"
proof -
  assume "0 \<le> x"
  then have "of_int 0 \<le> x / pow2 (max emin (ilog2 x) - int p + 1)" by simp
  then have "0 \<le> rne (x / pow2 (max emin (ilog2 x) - int p + 1))" by (rule rne_ge)
  then show ?thesis by (simp add: fmag_def)
qed

lemma fmag_mono:
  assumes p: "1 \<le> p" and x: "0 < x" and xy: "x \<le> y"
  shows "fmag p emin x \<le> fmag p emin y"
proof -
  let ?ex = "max emin (ilog2 x)" and ?ey = "max emin (ilog2 y)"
  let ?qx = "pow2 (?ex - int p + 1)" and ?qy = "pow2 (?ey - int p + 1)"
  from x xy have y: "0 < y" by simp
  have le: "?ex \<le> ?ey" using ilog2_mono [OF x xy] by simp
  show ?thesis
  proof (cases "?ex = ?ey")
    case True
    have "x / ?qx \<le> y / ?qx" using xy by (rule divide_right_mono) simp
    then have "rne (x / ?qx) \<le> rne (y / ?qx)" by (rule rne_mono)
    then have "of_int (rne (x / ?qx)) * ?qx \<le> of_int (rne (y / ?qx)) * ?qx"
      by (simp add: mult_right_mono)
    then show ?thesis unfolding fmag_def True [symmetric] .
  next
    case False
    with le have lt: "?ex < ?ey" unfolding less_le by blast
    have "emin < ?ey" using lt by (rule le_less_trans [rotated]) simp
    then have ey: "?ey = ilog2 y" unfolding max_def by (simp split: if_splits)
    have "x < pow2 (ilog2 x + 1)" using x by (rule ilog2_bounds)
    also have "\<dots> \<le> pow2 (?ex + 1)" by (intro pow2_mono) simp
    also have px: "pow2 (?ex + 1) = pow2 (int p) * ?qx" by (simp flip: pow2_add)
    finally have "x / ?qx \<le> pow2 (int p)" by (simp add: pos_divide_le_eq)
    also have "\<dots> = of_int (2 ^ p)" by (simp add: pow2_nat)
    finally have "rne (x / ?qx) \<le> 2 ^ p" by (rule rne_le)
    then have "(of_int (rne (x / ?qx)) :: rat) \<le> of_int (2 ^ p)" by (simp only: of_int_le_iff)
    then have "of_int (rne (x / ?qx)) * ?qx \<le> of_int (2 ^ p) * ?qx"
      by (rule mult_right_mono) simp
    also have "of_int (2 ^ p) * ?qx = pow2 (?ex + 1)" unfolding px by (simp add: pow2_nat)
    also have "\<dots> \<le> pow2 ?ey" by (rule pow2_mono) (use lt in linarith)
    finally have upper: "fmag p emin x \<le> pow2 ?ey" by (simp add: fmag_def)
    have "pow2 ?ey \<le> y" unfolding ey using y by (rule ilog2_bounds)
    moreover have py: "pow2 ?ey = pow2 (int (p - 1)) * ?qy"
      using p by (simp add: of_nat_diff flip: pow2_add)
    ultimately have "pow2 (int (p - 1)) \<le> y / ?qy" by (simp add: pos_le_divide_eq)
    then have "of_int (2 ^ (p - 1)) \<le> y / ?qy" by (simp add: pow2_nat)
    then have "2 ^ (p - 1) \<le> rne (y / ?qy)" by (rule rne_ge)
    then have "(of_int (2 ^ (p - 1)) :: rat) \<le> of_int (rne (y / ?qy))" by (simp only: of_int_le_iff)
    then have step: "of_int (2 ^ (p - 1)) * ?qy \<le> of_int (rne (y / ?qy)) * ?qy"
      by (rule mult_right_mono) simp
    have "pow2 ?ey = of_int (2 ^ (p - 1)) * ?qy"
      unfolding py by (simp add: pow2_nat)
    also note step
    finally have "pow2 ?ey \<le> fmag p emin y" unfolding fmag_def .
    with upper show ?thesis by simp
  qed
qed

lemma float_le_simps [simp]:
  "float_le (Finite x) (Finite y) = (x \<le> y)"
  "float_le (Finite x) PInf" "float_le NInf (Finite y)" "float_le NInf PInf"
  "float_le PInf PInf" "float_le NInf NInf"
  "\<not> float_le PInf (Finite y)" "\<not> float_le (Finite x) NInf" "\<not> float_le PInf NInf"
  "\<not> float_le NaN a" "\<not> float_le a NaN"
  by (auto simp: float_le_def)

lemma fround_mono:
  assumes p: "1 \<le> p" and xy: "x \<le> y"
  shows "float_le (fround p emin emax x) (fround p emin emax y)"
proof -
  let ?M = "pow2 (emax + 1)"
  consider "x = 0" "y = 0" | "x = 0" "0 < y" | "x < 0" "y = 0" | "x < 0" "0 < y"
    | "0 < x" "0 < y" | "x < 0" "y < 0"
    using xy by (cases x "0::rat" rule: linorder_cases; cases y "0::rat" rule: linorder_cases) auto
  then show ?thesis
  proof cases
    case 1
    then show ?thesis by (simp add: fround_fmag)
  next
    case 2
    with fmag_nonneg [of y p emin] show ?thesis by (simp add: fround_fmag)
  next
    case 3
    with fmag_nonneg [of "- x" p emin] show ?thesis by (simp add: fround_fmag)
  next
    case 4
    with fmag_nonneg [of "- x" p emin] fmag_nonneg [of y p emin] show ?thesis
      by (simp add: fround_fmag)
  next
    case 5
    with fmag_mono [OF p _ xy, of emin] show ?thesis by (simp add: fround_fmag)
  next
    case 6
    then have "0 < - y" and "- y \<le> - x" using xy by simp_all
    from fmag_mono [OF p this, of emin] 6 show ?thesis by (simp add: fround_fmag)
  qed
qed

lemma fround_zero [simp]: "fround p emin emax 0 = Finite 0"
  by (simp add: fround_def)

lemma ilog2_one [simp]: "ilog2 1 = 0"
  by (simp add: ilog2_def bitlen_alt_def)

lemma fround_one:
  assumes "1 \<le> p" and "emin \<le> 0" and "0 \<le> emax"
  shows "fround p emin emax 1 = Finite 1"
proof -
  have e: "max emin (ilog2 1) = 0" using assms by simp
  have q: "1 / pow2 (1 - int p) = of_int (2 ^ (p - 1))"
  proof -
    have "pow2 (int (p - 1)) * pow2 (1 - int p) = 1"
      using assms by (simp add: of_nat_diff pow2_def flip: pow2_add)
    then have "1 / pow2 (1 - int p) = pow2 (int (p - 1))" by (simp add: field_simps)
    then show ?thesis by (simp add: pow2_nat)
  qed
  have "0 - int p + 1 = 1 - int p" by simp
  then have "fmag p emin 1 = of_int (2 ^ (p - 1)) * pow2 (1 - int p)"
    unfolding fmag_def e by (simp only: q rne_of_int)
  also have "\<dots> = 1" using q by (simp add: field_simps)
  finally have m: "fmag p emin 1 = 1" .
  have "pow2 0 < pow2 (emax + 1)" using assms by (intro pow2_strict_mono) simp
  then have "\<not> pow2 (emax + 1) \<le> 1" by (simp add: pow2_def)
  then show ?thesis by (simp add: fround_fmag m)
qed

lemma float_between:
  assumes "float_le (Finite a) r" and "float_le r (Finite b)"
  obtains z where "r = Finite z" and "a \<le> z" and "z \<le> b"
  using assms by (cases r) auto

lemma round64_unit:
  assumes "0 \<le> x" and "x \<le> 1"
  obtains z where "round64 x = Finite z" and "0 \<le> z" and "z \<le> 1"
proof -
  have "float_le (round64 0) (round64 x)" and "float_le (round64 x) (round64 1)"
    unfolding round64_def using assms by (simp_all only: fround_mono)
  moreover have "round64 0 = Finite 0" and "round64 1 = Finite 1"
    by (simp_all add: round64_def fround_one)
  ultimately show ?thesis using that by (auto elim: float_between)
qed

lemma round32_unit:
  assumes "0 \<le> x" and "x \<le> 1"
  obtains z where "round32 x = Finite z" and "0 \<le> z" and "z \<le> 1"
proof -
  have "float_le (round32 0) (round32 x)" and "float_le (round32 x) (round32 1)"
    unfolding round32_def using assms by (simp_all only: fround_mono)
  moreover have "round32 0 = Finite 0" and "round32 1 = Finite 1"
    by (simp_all add: round32_def fround_one)
  ultimately show ?thesis using that by (auto elim: float_between)
qed

lemma fround_not_NaN [simp]: "fround p emin emax x \<noteq> NaN"
  by (simp add: fround_fmag)

lemma float_le_infinities [simp]: "float_le a PInf = (a \<noteq> NaN)" "float_le NInf a = (a \<noteq> NaN)"
  by (cases a; simp add: float_le_def)+

lemma to_float_mono:
  "float_le a b \<Longrightarrow> float_le (to_float a) (to_float b)"
  by (cases a; cases b) (auto simp: to_float_def round32_def fround_mono)

lemma float_less_bounds:
  "float_less t (Finite a) \<Longrightarrow> a \<le> b \<Longrightarrow> \<not> float_less (Finite b) t"
  by (cases t) auto

lemma c_trunc_of_int [simp]: "c_trunc (of_int n) = n"
  by (simp add: c_trunc_def)

section \<open>Values of the rounding at the numbers used below\<close>

lemma round64_half: "round64 (1 / 2) = Finite (1 / 2)"
  by code_simp

lemma round32_half: "round32 (1 / 2) = Finite (1 / 2)"
  by code_simp

lemma round64_51: "round64 (51 / 100) = Finite (2296835809958953 / 4503599627370496)"
  by code_simp

lemma round32_51: "round32 (2296835809958953 / 4503599627370496) = Finite (2139095 / 4194304)"
  by code_simp

lemma round32_3201: "round32 (3201 / 100) = Finite (8391229 / 262144)"
  by code_simp

lemma round32_5999: "round32 (5999 / 100) = Finite (15726019 / 262144)"
  by code_simp

lemma round32_values:
  "round32 30 = Finite 30" "round32 150 = Finite 150" "round32 75 = Finite 75"
  "round32 (225 / 4) = Finite (225 / 4)" "round32 (345 / 4) = Finite (345 / 4)"
  "round32 100000 = Finite 100000" "round32 (- 99820) = Finite (- 99820)"
  "round32 80 = Finite 80" "round32 100 = Finite 100" "round32 70 = Finite 70"
  "round32 (7 / 10) = Finite (11744051 / 16777216)"
  "round32 (293601275 / 4194304) = Finite 70" "round32 0 = Finite 0"
  by code_simp+

lemma round64_digits:
  "round64 37 = Finite 37" "round64 3 = Finite 3" "round64 25 = Finite 25" "round64 2 = Finite 2"
  by code_simp+

lemma round32_factor:
  "round32 2 = Finite 2" "round32 25 = Finite 25" "round32 180 = Finite 180"
  "round32 1875 = Finite 1875" "round32 1905 = Finite 1905"
  by code_simp+

lemma round32_edit:
  "round32 37 = Finite 37" "round32 143 = Finite 143" "round32 (143 / 2) = Finite (143 / 2)"
  "round32 (429 / 8) = Finite (429 / 8)" "round32 (725 / 8) = Finite (725 / 8)"
  "round32 3 = Finite 3" "round32 177 = Finite 177" "round32 (177 / 2) = Finite (177 / 2)"
  "round32 (531 / 8) = Finite (531 / 8)" "round32 (555 / 8) = Finite (555 / 8)"
  by code_simp+


lemma c_trunc_values:
  "c_trunc (345 / 4) = 86" "c_trunc 100000 = 100000" "c_trunc 150 = 150"
  "c_trunc (80 + (180 - 80) * (11744051 / 16777216) * 1) = 149"
  "c_trunc (725 / 8) = 90" "c_trunc (555 / 8) = 69"
  "c_trunc (- 2952790016) = - 2952790016"
  "c_trunc (- 2147483648 + (180 - (- 2147483648)) * (1 / 2) * (3 / 4)) = - 1342177212"
  by code_simp+

section \<open>Facts about the servo and the light sensor\<close>


lemma int_sub_small:
  "int_sub pf 180 30 = 150" "int_sub pf 180 100000 = - 99820" "int_sub pf 180 80 = 100"
  "int_sub pf 180 37 = 143" "int_sub pf 180 3 = 177"
  by (simp_all add: int_sub_def INT_MIN_def INT_MAX_def)






lemma servo_angle_edit:
  assumes "intensity s = Finite (1 / 2)" and "control_factor s = Finite (3 / 4)"
  shows "offset_angle s = 37 \<Longrightarrow> servo_angle pf s = 90"
    and "offset_angle s = 3 \<Longrightarrow> servo_angle pf s = 69"
  using assms
  by (simp_all add: servo_angle_def Let_def int_sub_small int_to_float_def round32_edit float_to_int_def
      c_trunc_values INT_MIN_def INT_MAX_def)

lemma servo_angle_factor:
  assumes "offset_angle s = 30" and "intensity s = Finite (1 / 2)"
  shows "control_factor s = Finite 2 \<Longrightarrow> servo_angle pf s = 180"
    and "control_factor s = Finite 25 \<Longrightarrow> servo_angle pf s = 1905"
  using assms
  by (simp_all add: servo_angle_def Let_def int_sub_small int_to_float_def round32_values
      round32_factor float_to_int_def c_trunc_def INT_MIN_def INT_MAX_def)






lemma map_long_light:
  assumes "0 \<le> raw"
  shows "map_long raw 0 4095 100 0 = 100 - (100 * raw) div 4095"
proof (cases "raw = 0")
  case True
  then show ?thesis by (simp add: map_long_def c_div_def)
next
  case False
  with assms have "0 < raw" by simp
  then have "sgn (raw * - 100) = - 1" and "\<bar>raw * - 100\<bar> = 100 * raw" by (simp_all add: sgn_mult)
  then show ?thesis by (simp add: map_long_def c_div_def Let_def)
qed

lemma read_intensity_value:
  "intensity (read_intensity pf String_float raw s) =
     to_float (round64 (of_int (map_long raw 0 4095 100 0) / 100))"
  by (simp add: read_intensity_def calculate_servo_position_def Let_def)

section \<open>C1: an alarm fires once\<close>

text \<open>
  Claim C1.  With \<open>alarm_enabled\<close> true and the three alarms in place, a run of \<^verbatim>\<open>check_alarm\<close>
  that returns has called \<^verbatim>\<open>ring_alarm\<close> once for each entry that was due (latch clear, hour
  and minute equal to the current ones) and has set the latch of exactly those entries; a
  second run at the same current time changes nothing and rings nothing.  The run returns
  when Cancel is read low at least once per due entry.  With \<open>alarm_enabled\<close> false the check
  returns the state as it is.  From every state, \<^verbatim>\<open>set_alarm(i)\<close> returns once Ok or Cancel
  has been pressed twice (once for each of its two editors), and whenever it returns the
  latch of entry \<open>i\<close> is clear.
\<close>

theorem check_alarm_fires_once:
  assumes en: "alarm_enabled s" and len: "length (alarms s) = n_alarms"
  shows
    "(\<forall>reads s' rest.
        check_alarm s reads = Some (s', rest) \<longrightarrow>
          alarms s' = map (\<lambda>a. if due s a then a\<lparr>triggered := True\<rparr> else a) (alarms s) \<and>
          rings s' = rings s + length (filter (due s) (alarms s)) \<and>
          hours s' = hours s \<and> minutes s' = minutes s \<and> alarm_enabled s' \<and>
          check_alarm s' rest = Some (s', rest)) \<and>
     (\<forall>reads.
        length (filter (due s) (alarms s)) \<le> length (filter (\<lambda>r. r = LOW) reads) \<longrightarrow>
        (\<exists>s' rest. check_alarm s reads = Some (s', rest))) \<and>
     (\<forall>s0 reads. \<not> alarm_enabled s0 \<longrightarrow> check_alarm s0 reads = Some (s0, reads)) \<and>
     (\<forall>s0 i presses.
        i < length (alarms s0) \<longrightarrow>
        (2 \<le> length (filter (\<lambda>b. b = OK \<or> b = CANCEL) presses) \<longrightarrow>
           (\<exists>s' rest. set_alarm i s0 presses = Some (s', rest))) \<and>
        (\<forall>s' rest. set_alarm i s0 presses = Some (s', rest) \<longrightarrow> \<not> triggered (alarms s' ! i)))"
proof (intro conjI allI impI)
  fix reads s' rest
  assume run: "check_alarm s reads = Some (s', rest)"
  from check_alarm_result [OF run en len]
  show "alarms s' = map (\<lambda>a. if due s a then a\<lparr>triggered := True\<rparr> else a) (alarms s)"
    and "rings s' = rings s + length (filter (due s) (alarms s))"
    and "hours s' = hours s" and "minutes s' = minutes s" and "alarm_enabled s'"
    and "check_alarm s' rest = Some (s', rest)" .
next
  fix reads
  assume "length (filter (due s) (alarms s)) \<le> length (filter (\<lambda>r. r = LOW) reads)"
  then have "length (filter (due s) (drop 0 (alarms s))) \<le> length (filter (\<lambda>r. r = LOW) reads)"
    by simp
  from check_alarm_loop_returns [OF this len] en
  show "\<exists>s' rest. check_alarm s reads = Some (s', rest)" by (auto simp: check_alarm_def)
next
  fix s0 :: state and reads :: "level list"
  assume "\<not> alarm_enabled s0"
  then show "check_alarm s0 reads = Some (s0, reads)" by (simp add: check_alarm_def)
next
  fix s0 :: state and i :: nat and presses :: "button list"
  assume "2 \<le> length (filter (\<lambda>b. b = OK \<or> b = CANCEL) presses)"
  then show "\<exists>s' rest. set_alarm i s0 presses = Some (s', rest)" by (rule set_alarm_returns)
next
  fix s0 i presses s' rest
  assume i: "i < length (alarms s0)" and run: "set_alarm i s0 presses = Some (s', rest)"
  from set_alarm_fields [OF run i] i show "\<not> triggered (alarms s' ! i)" by auto
qed

theorem check_alarm_fires_once_witness:
  "alarm_enabled
     (init_state\<lparr>alarm_enabled := True,
        alarms := [\<lparr>alarm.hours = 0, alarm.minutes = 0, triggered = False\<rparr>,
                   \<lparr>alarm.hours = 7, alarm.minutes = 30, triggered = False\<rparr>,
                   \<lparr>alarm.hours = 0, alarm.minutes = 0, triggered = True\<rparr>]\<rparr>) \<and>
   length (alarms
     (init_state\<lparr>alarm_enabled := True,
        alarms := [\<lparr>alarm.hours = 0, alarm.minutes = 0, triggered = False\<rparr>,
                   \<lparr>alarm.hours = 7, alarm.minutes = 30, triggered = False\<rparr>,
                   \<lparr>alarm.hours = 0, alarm.minutes = 0, triggered = True\<rparr>]\<rparr>)) = n_alarms \<and>
   check_alarm
     (init_state\<lparr>alarm_enabled := True,
        alarms := [\<lparr>alarm.hours = 0, alarm.minutes = 0, triggered = False\<rparr>,
                   \<lparr>alarm.hours = 7, alarm.minutes = 30, triggered = False\<rparr>,
                   \<lparr>alarm.hours = 0, alarm.minutes = 0, triggered = True\<rparr>]\<rparr>) [HIGH, LOW] =
     Some (init_state\<lparr>alarm_enabled := True,
             alarms := [\<lparr>alarm.hours = 0, alarm.minutes = 0, triggered = True\<rparr>,
                        \<lparr>alarm.hours = 7, alarm.minutes = 30, triggered = False\<rparr>,
                        \<lparr>alarm.hours = 0, alarm.minutes = 0, triggered = True\<rparr>],
             trace := [PrintLine ''Medicine Time!'' 0 0 2 True, DigitalWrite LED_1 HIGH,
                       DigitalWrite LED_1 LOW, ClearDisplay]\<rparr>, []) \<and>
   check_alarm
     (init_state\<lparr>alarm_enabled := True,
             alarms := [\<lparr>alarm.hours = 0, alarm.minutes = 0, triggered = True\<rparr>,
                        \<lparr>alarm.hours = 7, alarm.minutes = 30, triggered = False\<rparr>,
                        \<lparr>alarm.hours = 0, alarm.minutes = 0, triggered = True\<rparr>],
             trace := [PrintLine ''Medicine Time!'' 0 0 2 True, DigitalWrite LED_1 HIGH,
                       DigitalWrite LED_1 LOW, ClearDisplay]\<rparr>) [] =
     Some (init_state\<lparr>alarm_enabled := True,
             alarms := [\<lparr>alarm.hours = 0, alarm.minutes = 0, triggered = True\<rparr>,
                        \<lparr>alarm.hours = 7, alarm.minutes = 30, triggered = False\<rparr>,
                        \<lparr>alarm.hours = 0, alarm.minutes = 0, triggered = True\<rparr>],
             trace := [PrintLine ''Medicine Time!'' 0 0 2 True, DigitalWrite LED_1 HIGH,
                       DigitalWrite LED_1 LOW, ClearDisplay]\<rparr>, []) \<and>
   set_alarm 0
     (init_state\<lparr>alarm_enabled := True,
             alarms := [\<lparr>alarm.hours = 0, alarm.minutes = 0, triggered = True\<rparr>,
                        \<lparr>alarm.hours = 7, alarm.minutes = 30, triggered = False\<rparr>,
                        \<lparr>alarm.hours = 0, alarm.minutes = 0, triggered = True\<rparr>],
             trace := [PrintLine ''Medicine Time!'' 0 0 2 True, DigitalWrite LED_1 HIGH,
                       DigitalWrite LED_1 LOW, ClearDisplay]\<rparr>) [OK, CANCEL] =
     Some (init_state\<lparr>alarm_enabled := True,
             alarms := [\<lparr>alarm.hours = 0, alarm.minutes = 0, triggered = False\<rparr>,
                        \<lparr>alarm.hours = 7, alarm.minutes = 30, triggered = False\<rparr>,
                        \<lparr>alarm.hours = 0, alarm.minutes = 0, triggered = True\<rparr>],
             trace := [PrintLine ''Medicine Time!'' 0 0 2 True, DigitalWrite LED_1 HIGH,
                       DigitalWrite LED_1 LOW, ClearDisplay,
                       PrintLine ''Enter hour: 0'' 0 0 2 True,
                       PrintLine ''Enter minute: 0'' 0 0 2 True,
                       PrintLine ''Alarm 0 is set to 0:0'' 0 0 2 True]\<rparr>, [])"
proof -
  let ?s = "init_state\<lparr>alarm_enabled := True,
        alarms := [\<lparr>alarm.hours = 0, alarm.minutes = 0, triggered = False\<rparr>,
                   \<lparr>alarm.hours = 7, alarm.minutes = 30, triggered = False\<rparr>,
                   \<lparr>alarm.hours = 0, alarm.minutes = 0, triggered = True\<rparr>]\<rparr>"
  have en: "alarm_enabled ?s" and len: "length (alarms ?s) = n_alarms"
    by (simp_all add: n_alarms_def)
  have run: "check_alarm ?s [HIGH, LOW] =
     Some (init_state\<lparr>alarm_enabled := True,
             alarms := [\<lparr>alarm.hours = 0, alarm.minutes = 0, triggered = True\<rparr>,
                        \<lparr>alarm.hours = 7, alarm.minutes = 30, triggered = False\<rparr>,
                        \<lparr>alarm.hours = 0, alarm.minutes = 0, triggered = True\<rparr>],
             trace := [PrintLine ''Medicine Time!'' 0 0 2 True, DigitalWrite LED_1 HIGH,
                       DigitalWrite LED_1 LOW, ClearDisplay]\<rparr>, [])"
    by (simp add: alarm_run_simps init_state_def)
  let ?s1 = "init_state\<lparr>alarm_enabled := True,
             alarms := [\<lparr>alarm.hours = 0, alarm.minutes = 0, triggered = True\<rparr>,
                        \<lparr>alarm.hours = 7, alarm.minutes = 30, triggered = False\<rparr>,
                        \<lparr>alarm.hours = 0, alarm.minutes = 0, triggered = True\<rparr>],
             trace := [PrintLine ''Medicine Time!'' 0 0 2 True, DigitalWrite LED_1 HIGH,
                       DigitalWrite LED_1 LOW, ClearDisplay]\<rparr>"
  have edit: "set_alarm 0 ?s1 [OK, CANCEL] =
     Some (init_state\<lparr>alarm_enabled := True,
             alarms := [\<lparr>alarm.hours = 0, alarm.minutes = 0, triggered = False\<rparr>,
                        \<lparr>alarm.hours = 7, alarm.minutes = 30, triggered = False\<rparr>,
                        \<lparr>alarm.hours = 0, alarm.minutes = 0, triggered = True\<rparr>],
             trace := [PrintLine ''Medicine Time!'' 0 0 2 True, DigitalWrite LED_1 HIGH,
                       DigitalWrite LED_1 LOW, ClearDisplay,
                       PrintLine ''Enter hour: 0'' 0 0 2 True,
                       PrintLine ''Enter minute: 0'' 0 0 2 True,
                       PrintLine ''Alarm 0 is set to 0:0'' 0 0 2 True]\<rparr>, [])"
    by (simp add: set_alarm_def run_simps init_state_def)
  from check_alarm_fires_once [OF en len] run en len have "check_alarm ?s1 [] = Some (?s1, [])"
    by blast
  with run en len edit show ?thesis by (intro conjI)
qed

section \<open>C2: cancelling the second field of a two-field edit\<close>

text \<open>
  Claim C2 as stated (Ok on the first field, Cancel on the second: neither field changes)
  fails.  From the initial state, Up, Ok, Cancel in \<^verbatim>\<open>set_alarm(0)\<close> leaves alarm 0 at hour 1,
  and the same presses in \<^verbatim>\<open>set_timezone_and_config\<close> leave the offset at 3600 seconds.
\<close>

theorem two_field_edit_commits_first_counterexample:
  "set_alarm 0 init_state [UP, OK, CANCEL] =
     Some (init_state\<lparr>alarm_enabled := True,
             alarms := [\<lparr>alarm.hours = 1, alarm.minutes = 0, triggered = False\<rparr>,
                        \<lparr>alarm.hours = 0, alarm.minutes = 0, triggered = True\<rparr>,
                        \<lparr>alarm.hours = 0, alarm.minutes = 0, triggered = True\<rparr>],
             trace := [PrintLine ''Enter hour: 0'' 0 0 2 True, PrintLine ''Enter hour: 1'' 0 0 2 True,
                       PrintLine ''Enter minute: 0'' 0 0 2 True,
                       PrintLine ''Alarm 0 is set to 1:0'' 0 0 2 True]\<rparr>, []) \<and>
   alarm.hours (alarms init_state ! 0) = 0 \<and>
   set_timezone_and_config init_state [UP, OK, CANCEL] =
     Some (init_state\<lparr>utc_offset_sec := 3600,
             trace := [PrintLine ''Enter offset hours: 0'' 0 0 2 True,
                       PrintLine ''Enter offset hours: 1'' 0 0 2 True,
                       PrintLine ''Enter offset minutes: 0'' 0 0 2 True,
                       ConfigTime 3600 0 ''pool.ntp.org'',
                       PrintLine ''Timezone set to 1:0'' 0 0 2 True]\<rparr>, []) \<and>
   utc_offset_sec init_state = 0"
  by (simp add: set_alarm_def set_timezone_and_config_def run_simps init_state_def c_div_def c_mod_def
      UTC_OFFSET_DST_def NTP_SERVER_def)

text \<open>
  Claim C2, amended.  In a two-field edit where the first field is confirmed with Ok (after
  any Up and Down presses) and the second is cancelled (after any Up and Down presses), the
  value confirmed for the first field is committed and the second field keeps its previous
  value: \<^verbatim>\<open>set_alarm\<close> stores the hour that the hour editor returned and the old minute,
  clears the latch of the entry and enables the alarms; \<^verbatim>\<open>set_timezone_and_config\<close> stores
  the hours that the hour editor returned, times 3600, plus the old minute component times
  60.
\<close>

theorem two_field_edit_commits_first:
  assumes adj1: "set adj1 \<subseteq> {UP, DOWN}" and adj2: "set adj2 \<subseteq> {UP, DOWN}"
    and i: "i < length (alarms s)"
  shows
    "(\<exists>h s1 s'.
        read_value ''Enter hour: '' (alarm.hours (alarms s ! i)) 23 0 s (adj1 @ [OK]) = Some (h, s1, []) \<and>
        set_alarm i s (adj1 @ OK # adj2 @ CANCEL # rest) = Some (s', rest) \<and>
        alarm.hours (alarms s' ! i) = h \<and>
        alarm.minutes (alarms s' ! i) = alarm.minutes (alarms s ! i) \<and>
        \<not> triggered (alarms s' ! i) \<and> alarm_enabled s') \<and>
     (\<exists>h s1 s'.
        read_value ''Enter offset hours: '' (c_div (utc_offset_sec s) 3600) 14 (- 12) s (adj1 @ [OK]) =
          Some (h, s1, []) \<and>
        set_timezone_and_config s (adj1 @ OK # adj2 @ CANCEL # rest) = Some (s', rest) \<and>
        utc_offset_sec s' = h * 3600 + c_div (c_mod (utc_offset_sec s) 3600) 60 * 60)"
proof (rule conjI)
  from read_value_returns [OF adj1, of s "''Enter hour: ''" "alarm.hours (alarms s ! i)" 23 0]
  obtain h s1 where s1: "same_vars s s1"
    and r1: "\<And>rest. read_value ''Enter hour: '' (alarm.hours (alarms s ! i)) 23 0 s (adj1 @ OK # rest) =
        Some (h, s1, rest)" by blast
  have a1: "alarms s1 = alarms s" by (rule same_vars_fields [OF s1])
  define s2 where "s2 = s1\<lparr>alarms := (alarms s)[i := (alarms s ! i)\<lparr>alarm.hours := h\<rparr>]\<rparr>"
  from read_value_returns [OF adj2, of s2 "''Enter minute: ''" "alarm.minutes (alarms s ! i)" 59 0]
  obtain s3
    where r2: "\<And>rest. read_value ''Enter minute: '' (alarm.minutes (alarms s ! i)) 59 0 s2
          (adj2 @ CANCEL # rest) = Some (alarm.minutes (alarms s ! i), s3, rest)" by blast
  have "set_alarm i s (adj1 @ OK # adj2 @ CANCEL # rest) \<noteq> None"
    using i by (simp add: set_alarm_def r1 a1 flip: s2_def) (simp add: r2 Let_def)
  then obtain s' rest' where run: "set_alarm i s (adj1 @ OK # adj2 @ CANCEL # rest) = Some (s', rest')"
    by auto
  from set_alarm_fields [OF run i] r1 [of "adj2 @ CANCEL # rest"]
  have "rest' = rest" and "alarms s' =
      (alarms s)[i := \<lparr>alarm.hours = h, alarm.minutes = alarm.minutes (alarms s ! i), triggered = False\<rparr>]"
    and "alarm_enabled s'"
    by (auto simp: r2 same_vars_fields [OF s1] simp flip: s2_def)
  with run i r1 [of "[]"]
  show "\<exists>h s1 s'.
        read_value ''Enter hour: '' (alarm.hours (alarms s ! i)) 23 0 s (adj1 @ [OK]) = Some (h, s1, []) \<and>
        set_alarm i s (adj1 @ OK # adj2 @ CANCEL # rest) = Some (s', rest) \<and>
        alarm.hours (alarms s' ! i) = h \<and>
        alarm.minutes (alarms s' ! i) = alarm.minutes (alarms s ! i) \<and>
        \<not> triggered (alarms s' ! i) \<and> alarm_enabled s'"
    by auto
next
  let ?h0 = "c_div (utc_offset_sec s) 3600" and ?m0 = "c_div (c_mod (utc_offset_sec s) 3600) 60"
  from read_value_returns [OF adj1, of s "''Enter offset hours: ''" ?h0 14 "- 12"]
  obtain h s1
    where r1: "\<And>rest. read_value ''Enter offset hours: '' ?h0 14 (- 12) s (adj1 @ OK # rest) =
        Some (h, s1, rest)" by blast
  from read_value_returns [OF adj2, of s1 "''Enter offset minutes: ''" ?m0 59 0]
  obtain s2
    where r2: "\<And>rest. read_value ''Enter offset minutes: '' ?m0 59 0 s1 (adj2 @ CANCEL # rest) =
        Some (?m0, s2, rest)" by blast
  have "\<exists>s'. set_timezone_and_config s (adj1 @ OK # adj2 @ CANCEL # rest) = Some (s', rest) \<and>
      utc_offset_sec s' = h * 3600 + ?m0 * 60"
    by (simp add: set_timezone_and_config_def r1 r2 Let_def print_line_def)
  with r1 [of "[]"]
  show "\<exists>h s1 s'.
        read_value ''Enter offset hours: '' ?h0 14 (- 12) s (adj1 @ [OK]) = Some (h, s1, []) \<and>
        set_timezone_and_config s (adj1 @ OK # adj2 @ CANCEL # rest) = Some (s', rest) \<and>
        utc_offset_sec s' = h * 3600 + ?m0 * 60"
    by auto
qed

theorem two_field_edit_commits_first_witness:
  "set [UP, UP] \<subseteq> {UP, DOWN} \<and> set [DOWN] \<subseteq> {UP, DOWN} \<and> 1 < length (alarms init_state) \<and>
   triggered (alarms init_state ! 1) \<and> \<not> alarm_enabled init_state \<and>
   (\<exists>h s1 s'.
        read_value ''Enter hour: '' (alarm.hours (alarms init_state ! 1)) 23 0 init_state ([UP, UP] @ [OK]) =
          Some (h, s1, []) \<and>
        set_alarm 1 init_state ([UP, UP] @ OK # [DOWN] @ CANCEL # []) = Some (s', []) \<and>
        alarm.hours (alarms s' ! 1) = h \<and>
        alarm.minutes (alarms s' ! 1) = alarm.minutes (alarms init_state ! 1) \<and>
        \<not> triggered (alarms s' ! 1) \<and> alarm_enabled s') \<and>
   (\<exists>h s1 s'.
        read_value ''Enter offset hours: '' (c_div (utc_offset_sec init_state) 3600) 14 (- 12) init_state
          ([UP, UP] @ [OK]) = Some (h, s1, []) \<and>
        set_timezone_and_config init_state ([UP, UP] @ OK # [DOWN] @ CANCEL # []) = Some (s', []) \<and>
        utc_offset_sec s' = h * 3600 + c_div (c_mod (utc_offset_sec init_state) 3600) 60 * 60)"
proof -
  have "set [UP, UP] \<subseteq> {UP, DOWN}" and "set [DOWN] \<subseteq> {UP, DOWN}"
    and "1 < length (alarms init_state)"
    by (simp_all add: init_state_def)
  moreover have "triggered (alarms init_state ! 1)" and "\<not> alarm_enabled init_state"
    by (simp_all add: init_state_def)
  moreover note two_field_edit_commits_first [OF calculation(1-3), of "[]"]
  ultimately show ?thesis by blast
qed

section \<open>C3: the servo angle\<close>




section \<open>C4: the value editor\<close>

text \<open>
  Claim C4.  For a \<^verbatim>\<open>read_value\<close> call with \<open>min_value \<le> init_value \<le> max_value\<close>:
  the working value starts at \<open>init_value\<close>; at working value \<open>v\<close> an Up press continues
  with \<open>v + 1\<close>, or with \<open>min_value\<close> when \<open>v + 1 > max_value\<close>; a Down press continues
  with \<open>v - 1\<close>, or with \<open>max_value\<close> when \<open>v - 1 < min_value\<close>; Ok returns \<open>v\<close>; Cancel
  returns \<open>init_value\<close>.  The values Ok would return after 0, 1, ..., \<open>max_value - min_value\<close>
  Up presses are \<open>init_value, ..., max_value, min_value, ..., init_value - 1\<close>: every value of
  the range once; after \<open>max_value - min_value + 1\<close> Up presses it is \<open>init_value\<close> again.
\<close>

theorem read_value_buttons:
  assumes "min_value \<le> init_value" and "init_value \<le> max_value"
  shows
    "(\<forall>v s1 rest.
        read_value_loop text init_value max_value min_value v s1 (UP # rest) =
        read_value_loop text init_value max_value min_value
          (if v + 1 > max_value then min_value else v + 1)
          (print_line (text @ String_int v) 0 0 2 True s1) rest) \<and>
     (\<forall>v s1 rest.
        read_value_loop text init_value max_value min_value v s1 (DOWN # rest) =
        read_value_loop text init_value max_value min_value
          (if v - 1 < min_value then max_value else v - 1)
          (print_line (text @ String_int v) 0 0 2 True s1) rest) \<and>
     (\<forall>v s1 rest.
        read_value_loop text init_value max_value min_value v s1 (OK # rest) =
        Some (v, print_line (text @ String_int v) 0 0 2 True s1, rest)) \<and>
     (\<forall>v s1 rest.
        read_value_loop text init_value max_value min_value v s1 (CANCEL # rest) =
        Some (init_value, print_line (text @ String_int v) 0 0 2 True s1, rest)) \<and>
     read_value text init_value max_value min_value s presses =
       read_value_loop text init_value max_value min_value init_value s presses \<and>
     map (\<lambda>k. map_option fst
                (read_value text init_value max_value min_value s (replicate k UP @ [OK])))
       [0..<nat (max_value - min_value + 1)] =
       map Some ([init_value..max_value] @ [min_value..init_value - 1]) \<and>
     map_option fst
       (read_value text init_value max_value min_value s
          (replicate (nat (max_value - min_value + 1)) UP @ [OK])) = Some init_value"
proof -
  have val: "map_option fst (read_value text init_value max_value min_value s (replicate k UP @ [OK])) =
      Some (min_value + (init_value - min_value + int k) mod (max_value - min_value + 1))" for k
    using read_value_loop_ups [OF assms, of "text" init_value s k "[]"]
    by (auto simp: read_value_def)
  have visited: "map (\<lambda>k. map_option fst
                (read_value text init_value max_value min_value s (replicate k UP @ [OK])))
       [0..<nat (max_value - min_value + 1)] =
       map Some ([init_value..max_value] @ [min_value..init_value - 1])"
    by (simp only: val flip: cycle_values [OF assms]) (simp add: comp_def)
  have "int (nat (max_value - min_value + 1)) = max_value - min_value + 1"
    using assms by simp
  moreover have "(init_value - min_value + (max_value - min_value + 1)) mod (max_value - min_value + 1) =
      (init_value - min_value) mod (max_value - min_value + 1)"
    by (simp only: mod_add_self2)
  moreover have "(init_value - min_value) mod (max_value - min_value + 1) = init_value - min_value"
    using assms by (intro mod_pos_pos_trivial) auto
  ultimately have "(init_value - min_value + int (nat (max_value - min_value + 1))) mod (max_value - min_value + 1) =
      init_value - min_value"
    by (simp only:)
  then have again: "map_option fst
       (read_value text init_value max_value min_value s
          (replicate (nat (max_value - min_value + 1)) UP @ [OK])) = Some init_value"
    by (simp only: val) simp
  show ?thesis
    by (intro conjI allI read_value_loop_UP read_value_loop_DOWN read_value_loop_OK
        read_value_loop_CANCEL visited again) (simp add: read_value_def)
qed

theorem read_value_buttons_witness:
  "(0::int) \<le> 22 \<and> (22::int) \<le> 23 \<and>
   read_value ''Enter hour: '' 22 23 0 init_state [UP, UP, DOWN, OK] =
     read_value_loop ''Enter hour: '' 22 23 0 22 init_state [UP, UP, DOWN, OK] \<and>
   map (\<lambda>k. map_option fst (read_value ''Enter hour: '' 22 23 0 init_state (replicate k UP @ [OK])))
     [0..<nat (23 - 0 + 1)] = map Some ([22..23] @ [0..22 - 1]) \<and>
   map_option fst (read_value ''Enter hour: '' 22 23 0 init_state (replicate (nat (23 - 0 + 1)) UP @ [OK]))
     = Some 22"
  using read_value_buttons [of 0 22 23 "''Enter hour: ''" init_state "[UP, UP, DOWN, OK]"]
  by simp

section \<open>C5: parameters received over MQTT\<close>

text \<open>
  Claim C5.  The value that a message on the base-offset topic or on the control-factor topic
  stores is the parse of the C string that starts at \<^verbatim>\<open>payload_array\<close>, which is the payload
  followed by what memory holds behind the array, up to the first zero byte; it is stored
  with no check, and the servo position is computed from it, written and published.  That
  string is the payload text when a zero byte happens to follow the array (and the payload
  has none).  When it does not, the claim fails: for the payload \<^verbatim>\<open>3\<close> on the base-offset
  topic, with the byte \<^verbatim>\<open>7\<close> and then a zero behind the array, \<open>offset_angle\<close> becomes 37,
  and at intensity 0.5 and factor 0.75 the servo is sent to 90; with the zero right behind
  the array \<open>offset_angle\<close> becomes 3, the parse of the payload, and the servo is sent to 69.
  Likewise the payload \<^verbatim>\<open>2\<close> on the control-factor topic, with \<^verbatim>\<open>5\<close> and a zero behind the
  array, stores the factor 25 and, at offset 30 and intensity 0.5, sends the servo to 1905;
  with the zero right behind the array the factor is 2 and the angle 180.  This holds for
  every parser that reads these four strings of digits as the numbers they denote, as
  \<^verbatim>\<open>atof\<close> does.
\<close>

theorem receive_callback_reads_behind_payload:
  "receive_callback atof pf behind SERVO_MIN_ANGLE_TOPIC payload s =
     calculate_servo_position pf
       (s\<lparr>offset_angle := float_to_int (float_to_int_ub pf) (atof (c_str (payload @ behind)))\<rparr>) \<and>
   receive_callback atof pf behind SERVO_CONTROL_FACTOR_TOPIC payload s =
     calculate_servo_position pf
       (s\<lparr>control_factor := to_float (atof (c_str (payload @ behind)))\<rparr>) \<and>
   (NUL \<notin> set payload \<longrightarrow> c_str (payload @ NUL # mem) = payload) \<and>
   (atof ''37'' = Finite 37 \<longrightarrow>
      receive_callback atof pf (CHR ''7'' # NUL # mem) SERVO_MIN_ANGLE_TOPIC ''3''
        (s\<lparr>intensity := Finite (1 / 2), control_factor := Finite (3 / 4)\<rparr>) =
      s\<lparr>offset_angle := 37, intensity := Finite (1 / 2), control_factor := Finite (3 / 4),
        trace := trace s @ [ServoWrite 90, Publish SERVO_MOTOR_ANGLE_TOPIC ''90'']\<rparr>) \<and>
   (atof ''3'' = Finite 3 \<longrightarrow>
      receive_callback atof pf (NUL # mem) SERVO_MIN_ANGLE_TOPIC ''3''
        (s\<lparr>intensity := Finite (1 / 2), control_factor := Finite (3 / 4)\<rparr>) =
      s\<lparr>offset_angle := 3, intensity := Finite (1 / 2), control_factor := Finite (3 / 4),
        trace := trace s @ [ServoWrite 69, Publish SERVO_MOTOR_ANGLE_TOPIC ''69'']\<rparr>) \<and>
   (atof ''25'' = Finite 25 \<longrightarrow>
      receive_callback atof pf (CHR ''5'' # NUL # mem) SERVO_CONTROL_FACTOR_TOPIC ''2''
        (s\<lparr>offset_angle := 30, intensity := Finite (1 / 2)\<rparr>) =
      s\<lparr>offset_angle := 30, intensity := Finite (1 / 2), control_factor := Finite 25,
        trace := trace s @ [ServoWrite 1905, Publish SERVO_MOTOR_ANGLE_TOPIC ''1905'']\<rparr>) \<and>
   (atof ''2'' = Finite 2 \<longrightarrow>
      receive_callback atof pf (NUL # mem) SERVO_CONTROL_FACTOR_TOPIC ''2''
        (s\<lparr>offset_angle := 30, intensity := Finite (1 / 2)\<rparr>) =
      s\<lparr>offset_angle := 30, intensity := Finite (1 / 2), control_factor := Finite 2,
        trace := trace s @ [ServoWrite 180, Publish SERVO_MOTOR_ANGLE_TOPIC ''180'']\<rparr>)"
proof (intro conjI impI)
  have topics: "SERVO_CONTROL_FACTOR_TOPIC \<noteq> SERVO_MIN_ANGLE_TOPIC"
    by (simp add: SERVO_CONTROL_FACTOR_TOPIC_def SERVO_MIN_ANGLE_TOPIC_def)
  show min: "receive_callback atof pf behind SERVO_MIN_ANGLE_TOPIC payload s =
     calculate_servo_position pf
       (s\<lparr>offset_angle := float_to_int (float_to_int_ub pf) (atof (c_str (payload @ behind)))\<rparr>)"
    for behind payload s
    by (simp add: receive_callback_def)
  show fac: "receive_callback atof pf behind SERVO_CONTROL_FACTOR_TOPIC payload s =
     calculate_servo_position pf
       (s\<lparr>control_factor := to_float (atof (c_str (payload @ behind)))\<rparr>)"
    for behind payload s
    using topics by (simp add: receive_callback_def)
  show "c_str (payload @ NUL # mem) = payload" if "NUL \<notin> set payload"
    using that by (induction payload) (auto simp: c_str_def)
  have digits: "CHR ''3'' \<noteq> NUL" "CHR ''7'' \<noteq> NUL" by (simp_all add: NUL_def)
  have text37: "c_str (''3'' @ CHR ''7'' # NUL # mem) = ''37''"
    and text3: "c_str (''3'' @ NUL # mem) = ''3''"
    using digits by (simp_all add: c_str_def)
  have conv: "float_to_int ub (Finite 37) = 37" "float_to_int ub (Finite 3) = 3" for ub
    by (simp_all add: float_to_int_def c_trunc_def INT_MIN_def INT_MAX_def)
  have str: "toCharArray 6 (String_int 90) = ''90''" "toCharArray 6 (String_int 69) = ''69''"
    by (simp_all add: toCharArray_def String_int_def dec_digits.simps digit_char_def)
  let ?s = "s\<lparr>intensity := Finite (1 / 2), control_factor := Finite (3 / 4)\<rparr>"
  have a37: "servo_angle pf (?s\<lparr>offset_angle := 37\<rparr>) = 90"
    by (rule servo_angle_edit) simp_all
  have a3: "servo_angle pf (?s\<lparr>offset_angle := 3\<rparr>) = 69"
    by (rule servo_angle_edit) simp_all
  show "receive_callback atof pf (CHR ''7'' # NUL # mem) SERVO_MIN_ANGLE_TOPIC ''3'' ?s =
      s\<lparr>offset_angle := 37, intensity := Finite (1 / 2), control_factor := Finite (3 / 4),
        trace := trace s @ [ServoWrite 90, Publish SERVO_MOTOR_ANGLE_TOPIC ''90'']\<rparr>"
    if "atof ''37'' = Finite 37"
    unfolding min text37 that conv calculate_servo_position_def a37 str by simp
  show "receive_callback atof pf (NUL # mem) SERVO_MIN_ANGLE_TOPIC ''3'' ?s =
      s\<lparr>offset_angle := 3, intensity := Finite (1 / 2), control_factor := Finite (3 / 4),
        trace := trace s @ [ServoWrite 69, Publish SERVO_MOTOR_ANGLE_TOPIC ''69'']\<rparr>"
    if "atof ''3'' = Finite 3"
    unfolding min text3 that conv calculate_servo_position_def a3 str by simp
  have two: "CHR ''2'' \<noteq> NUL" "CHR ''5'' \<noteq> NUL" by (simp_all add: NUL_def)
  have text25: "c_str (''2'' @ CHR ''5'' # NUL # mem) = ''25''"
    and text2: "c_str (''2'' @ NUL # mem) = ''2''"
    using two by (simp_all add: c_str_def)
  have conv2: "to_float (Finite 25) = Finite 25" "to_float (Finite 2) = Finite 2"
    by (simp_all add: to_float_def round32_factor)
  have str2: "toCharArray 6 (String_int 1905) = ''1905''" "toCharArray 6 (String_int 180) = ''180''"
    by (simp_all add: toCharArray_def String_int_def dec_digits.simps digit_char_def)
  let ?t = "s\<lparr>offset_angle := 30, intensity := Finite (1 / 2)\<rparr>"
  have a25: "servo_angle pf (?t\<lparr>control_factor := Finite 25\<rparr>) = 1905"
    by (rule servo_angle_factor) simp_all
  have a2: "servo_angle pf (?t\<lparr>control_factor := Finite 2\<rparr>) = 180"
    by (rule servo_angle_factor) simp_all
  show "receive_callback atof pf (CHR ''5'' # NUL # mem) SERVO_CONTROL_FACTOR_TOPIC ''2'' ?t =
      s\<lparr>offset_angle := 30, intensity := Finite (1 / 2), control_factor := Finite 25,
        trace := trace s @ [ServoWrite 1905, Publish SERVO_MOTOR_ANGLE_TOPIC ''1905'']\<rparr>"
    if "atof ''25'' = Finite 25"
    unfolding fac text25 that conv2 calculate_servo_position_def a25 str2 by simp
  show "receive_callback atof pf (NUL # mem) SERVO_CONTROL_FACTOR_TOPIC ''2'' ?t =
      s\<lparr>offset_angle := 30, intensity := Finite (1 / 2), control_factor := Finite 2,
        trace := trace s @ [ServoWrite 180, Publish SERVO_MOTOR_ANGLE_TOPIC ''180'']\<rparr>"
    if "atof ''2'' = Finite 2"
    unfolding fac text2 that conv2 calculate_servo_position_def a2 str2 by simp
qed

theorem receive_callback_reads_behind_payload_witness:
  "NUL \<notin> set ''3'' \<and> c_str (''3'' @ [NUL]) = ''3'' \<and>
   atof_digits ''37'' = Finite 37 \<and> atof_digits ''3'' = Finite 3 \<and>
   receive_callback atof_digits fused_rounding [CHR ''7'', NUL] ''SERVO_MIN_ANGLE'' ''3''
     (init_state\<lparr>intensity := Finite (1 / 2)\<rparr>) =
     init_state\<lparr>offset_angle := 37, intensity := Finite (1 / 2),
       trace := [ServoWrite 90, Publish ''SERVO_MOTOR_ANGLE'' ''90'']\<rparr> \<and>
   receive_callback atof_digits fused_rounding [NUL] ''SERVO_MIN_ANGLE'' ''3''
     (init_state\<lparr>intensity := Finite (1 / 2)\<rparr>) =
     init_state\<lparr>offset_angle := 3, intensity := Finite (1 / 2),
       trace := [ServoWrite 69, Publish ''SERVO_MOTOR_ANGLE'' ''69'']\<rparr> \<and>
   atof_digits ''25'' = Finite 25 \<and> atof_digits ''2'' = Finite 2 \<and>
   receive_callback atof_digits fused_rounding [CHR ''5'', NUL] ''SERVO_CONTROLLING_FACTOR'' ''2''
     (init_state\<lparr>intensity := Finite (1 / 2)\<rparr>) =
     init_state\<lparr>intensity := Finite (1 / 2), control_factor := Finite 25,
       trace := [ServoWrite 1905, Publish ''SERVO_MOTOR_ANGLE'' ''1905'']\<rparr> \<and>
   receive_callback atof_digits fused_rounding [NUL] ''SERVO_CONTROLLING_FACTOR'' ''2''
     (init_state\<lparr>intensity := Finite (1 / 2)\<rparr>) =
     init_state\<lparr>intensity := Finite (1 / 2), control_factor := Finite 2,
       trace := [ServoWrite 180, Publish ''SERVO_MOTOR_ANGLE'' ''180'']\<rparr>"
proof -
  have n: "NUL \<notin> set ''3''" by (simp add: NUL_def)
  have p: "atof_digits ''37'' = Finite 37" "atof_digits ''3'' = Finite 3"
    "atof_digits ''25'' = Finite 25" "atof_digits ''2'' = Finite 2"
    by (simp_all add: atof_digits_def is_digit_def digit_value_def round64_digits)
  have s: "init_state\<lparr>intensity := Finite (1 / 2), control_factor := Finite (3 / 4)\<rparr> =
      init_state\<lparr>intensity := Finite (1 / 2)\<rparr>"
    "trace init_state = []"
    by (simp_all add: init_state_def)
  note inst = receive_callback_reads_behind_payload
    [of atof_digits fused_rounding _ "''3''" init_state "[]"]
  from inst n have c: "c_str (''3'' @ [NUL]) = ''3''" by blast
  from inst p(1)
  have "receive_callback atof_digits fused_rounding [CHR ''7'', NUL] SERVO_MIN_ANGLE_TOPIC ''3''
        (init_state\<lparr>intensity := Finite (1 / 2), control_factor := Finite (3 / 4)\<rparr>) =
      init_state\<lparr>offset_angle := 37, intensity := Finite (1 / 2), control_factor := Finite (3 / 4),
        trace := trace init_state @ [ServoWrite 90, Publish SERVO_MOTOR_ANGLE_TOPIC ''90'']\<rparr>"
    by blast
  then have r37: "receive_callback atof_digits fused_rounding [CHR ''7'', NUL] ''SERVO_MIN_ANGLE'' ''3''
     (init_state\<lparr>intensity := Finite (1 / 2)\<rparr>) =
     init_state\<lparr>offset_angle := 37, intensity := Finite (1 / 2),
       trace := [ServoWrite 90, Publish ''SERVO_MOTOR_ANGLE'' ''90'']\<rparr>"
    by (simp add: s SERVO_MIN_ANGLE_TOPIC_def SERVO_MOTOR_ANGLE_TOPIC_def) (simp add: init_state_def)
  from inst p(2)
  have "receive_callback atof_digits fused_rounding [NUL] SERVO_MIN_ANGLE_TOPIC ''3''
        (init_state\<lparr>intensity := Finite (1 / 2), control_factor := Finite (3 / 4)\<rparr>) =
      init_state\<lparr>offset_angle := 3, intensity := Finite (1 / 2), control_factor := Finite (3 / 4),
        trace := trace init_state @ [ServoWrite 69, Publish SERVO_MOTOR_ANGLE_TOPIC ''69'']\<rparr>"
    by blast
  then have r3: "receive_callback atof_digits fused_rounding [NUL] ''SERVO_MIN_ANGLE'' ''3''
     (init_state\<lparr>intensity := Finite (1 / 2)\<rparr>) =
     init_state\<lparr>offset_angle := 3, intensity := Finite (1 / 2),
       trace := [ServoWrite 69, Publish ''SERVO_MOTOR_ANGLE'' ''69'']\<rparr>"
    by (simp add: s SERVO_MIN_ANGLE_TOPIC_def SERVO_MOTOR_ANGLE_TOPIC_def) (simp add: init_state_def)
  have s2: "init_state\<lparr>offset_angle := 30, intensity := Finite (1 / 2)\<rparr> =
      init_state\<lparr>intensity := Finite (1 / 2)\<rparr>"
    by (simp add: init_state_def)
  from inst p(3)
  have "receive_callback atof_digits fused_rounding [CHR ''5'', NUL] SERVO_CONTROL_FACTOR_TOPIC ''2''
        (init_state\<lparr>offset_angle := 30, intensity := Finite (1 / 2)\<rparr>) =
      init_state\<lparr>offset_angle := 30, intensity := Finite (1 / 2), control_factor := Finite 25,
        trace := trace init_state @ [ServoWrite 1905, Publish SERVO_MOTOR_ANGLE_TOPIC ''1905'']\<rparr>"
    by blast
  then have r25: "receive_callback atof_digits fused_rounding [CHR ''5'', NUL]
      ''SERVO_CONTROLLING_FACTOR'' ''2'' (init_state\<lparr>intensity := Finite (1 / 2)\<rparr>) =
     init_state\<lparr>intensity := Finite (1 / 2), control_factor := Finite 25,
       trace := [ServoWrite 1905, Publish ''SERVO_MOTOR_ANGLE'' ''1905'']\<rparr>"
    by (simp add: s s2 SERVO_CONTROL_FACTOR_TOPIC_def SERVO_MOTOR_ANGLE_TOPIC_def)
  from inst p(4)
  have "receive_callback atof_digits fused_rounding [NUL] SERVO_CONTROL_FACTOR_TOPIC ''2''
        (init_state\<lparr>offset_angle := 30, intensity := Finite (1 / 2)\<rparr>) =
      init_state\<lparr>offset_angle := 30, intensity := Finite (1 / 2), control_factor := Finite 2,
        trace := trace init_state @ [ServoWrite 180, Publish SERVO_MOTOR_ANGLE_TOPIC ''180'']\<rparr>"
    by blast
  then have r2: "receive_callback atof_digits fused_rounding [NUL]
      ''SERVO_CONTROLLING_FACTOR'' ''2'' (init_state\<lparr>intensity := Finite (1 / 2)\<rparr>) =
     init_state\<lparr>intensity := Finite (1 / 2), control_factor := Finite 2,
       trace := [ServoWrite 180, Publish ''SERVO_MOTOR_ANGLE'' ''180'']\<rparr>"
    by (simp add: s s2 SERVO_CONTROL_FACTOR_TOPIC_def SERVO_MOTOR_ANGLE_TOPIC_def)
  from n c p r37 r3 r25 r2 show ?thesis by (intro conjI)
qed

section \<open>C6: temperature and humidity warnings\<close>

text \<open>
  Claim C6.  \<^verbatim>\<open>check_temperature_humidity\<close> prints \<^verbatim>\<open>Temperature HIGH\<close> exactly when
  \<open>temperature > 32\<close>, \<^verbatim>\<open>Temperature LOW\<close> exactly when \<open>temperature < 26\<close>,
  \<^verbatim>\<open>Humidity HIGH\<close> exactly when \<open>humidity > 80\<close> and \<^verbatim>\<open>Humidity LOW\<close> exactly when
  \<open>humidity < 60\<close>.  At temperature 32 and humidity 60 it only publishes; at the \<^verbatim>\<open>float\<close>
  values nearest to 32.01 and 59.99 it prints \<^verbatim>\<open>Temperature HIGH\<close> and \<^verbatim>\<open>Humidity LOW\<close> and
  pulses the warning LED.
\<close>

theorem check_temperature_humidity_thresholds:
  "emits s (check_temperature_humidity String_float data s) (PrintLine ''Temperature HIGH'' 0 40 1 False)
     = float_less (Finite 32) (temperature data) \<and>
   emits s (check_temperature_humidity String_float data s) (PrintLine ''Temperature LOW'' 0 40 1 False)
     = float_less (temperature data) (Finite 26) \<and>
   emits s (check_temperature_humidity String_float data s) (PrintLine ''Humidity HIGH'' 0 50 1 False)
     = float_less (Finite 80) (humidity data) \<and>
   emits s (check_temperature_humidity String_float data s) (PrintLine ''Humidity LOW'' 0 50 1 False)
     = float_less (humidity data) (Finite 60) \<and>
   float_less (Finite 32) (Finite t) = (32 < t) \<and> float_less (Finite t) (Finite 26) = (t < 26) \<and>
   float_less (Finite 80) (Finite h) = (80 < h) \<and> float_less (Finite h) (Finite 60) = (h < 60) \<and>
   check_temperature_humidity String_float \<lparr>temperature = Finite 32, humidity = Finite 60\<rparr> s =
     s\<lparr>trace := trace s @
         [Publish TEMPERATURE_TOPIC (toCharArray 6 (String_float (Finite 32) 2)),
          Publish HUMIDITY_TOPIC (toCharArray 6 (String_float (Finite 60) 2))]\<rparr> \<and>
   round32 (3201 / 100) = Finite (8391229 / 262144) \<and>
   round32 (5999 / 100) = Finite (15726019 / 262144) \<and>
   check_temperature_humidity String_float
       \<lparr>temperature = round32 (3201 / 100), humidity = round32 (5999 / 100)\<rparr> s =
     s\<lparr>trace := trace s @
         [PrintLine ''Temperature HIGH'' 0 40 1 False, PrintLine ''Humidity LOW'' 0 50 1 False,
          DigitalWrite LED_2 HIGH, DigitalWrite LED_2 LOW,
          Publish TEMPERATURE_TOPIC (toCharArray 6 (String_float (round32 (3201 / 100)) 2)),
          Publish HUMIDITY_TOPIC (toCharArray 6 (String_float (round32 (5999 / 100)) 2))]\<rparr>"
proof -
  let ?s' = "check_temperature_humidity String_float data s"
  have lt: "float_less (temperature data) (Finite 26) \<Longrightarrow> \<not> float_less (Finite 32) (temperature data)"
    using float_less_bounds [of "temperature data" 26 32] by simp
  have lh: "float_less (humidity data) (Finite 60) \<Longrightarrow> \<not> float_less (Finite 80) (humidity data)"
    using float_less_bounds [of "humidity data" 60 80] by simp
  have "emits s ?s' (PrintLine ''Temperature HIGH'' 0 40 1 False) = float_less (Finite 32) (temperature data)"
    by (simp add: emits_def check_temperature_humidity_def print_line_def)
  moreover
  have "emits s ?s' (PrintLine ''Temperature LOW'' 0 40 1 False) = float_less (temperature data) (Finite 26)"
    using lt by (auto simp: emits_def check_temperature_humidity_def print_line_def)
  moreover
  have "emits s ?s' (PrintLine ''Humidity HIGH'' 0 50 1 False) = float_less (Finite 80) (humidity data)"
    by (simp add: emits_def check_temperature_humidity_def print_line_def)
  moreover
  have "emits s ?s' (PrintLine ''Humidity LOW'' 0 50 1 False) = float_less (humidity data) (Finite 60)"
    using lh by (auto simp: emits_def check_temperature_humidity_def print_line_def)
  moreover
  have "check_temperature_humidity String_float \<lparr>temperature = Finite 32, humidity = Finite 60\<rparr> s =
     s\<lparr>trace := trace s @
         [Publish TEMPERATURE_TOPIC (toCharArray 6 (String_float (Finite 32) 2)),
          Publish HUMIDITY_TOPIC (toCharArray 6 (String_float (Finite 60) 2))]\<rparr>"
    by (simp add: check_temperature_humidity_def)
  moreover
  have "check_temperature_humidity String_float
       \<lparr>temperature = round32 (3201 / 100), humidity = round32 (5999 / 100)\<rparr> s =
     s\<lparr>trace := trace s @
         [PrintLine ''Temperature HIGH'' 0 40 1 False, PrintLine ''Humidity LOW'' 0 50 1 False,
          DigitalWrite LED_2 HIGH, DigitalWrite LED_2 LOW,
          Publish TEMPERATURE_TOPIC (toCharArray 6 (String_float (round32 (3201 / 100)) 2)),
          Publish HUMIDITY_TOPIC (toCharArray 6 (String_float (round32 (5999 / 100)) 2))]\<rparr>"
    unfolding round32_3201 round32_5999
    by (simp add: check_temperature_humidity_def print_line_def)
  ultimately show ?thesis by (simp add: round32_3201 round32_5999)
qed

theorem check_temperature_humidity_thresholds_witness:
  "emits init_state
     (check_temperature_humidity (\<lambda>x n. []) \<lparr>temperature = Finite 25, humidity = Finite 81\<rparr> init_state)
     (PrintLine ''Temperature LOW'' 0 40 1 False) \<and>
   emits init_state
     (check_temperature_humidity (\<lambda>x n. []) \<lparr>temperature = Finite 25, humidity = Finite 81\<rparr> init_state)
     (PrintLine ''Humidity HIGH'' 0 50 1 False) \<and>
   \<not> emits init_state
     (check_temperature_humidity (\<lambda>x n. []) \<lparr>temperature = NaN, humidity = Finite 60\<rparr> init_state)
     (PrintLine ''Temperature HIGH'' 0 40 1 False)"
  using check_temperature_humidity_thresholds
    [of init_state "\<lambda>x n. []" "\<lparr>temperature = Finite 25, humidity = Finite 81\<rparr>"]
    check_temperature_humidity_thresholds
    [of init_state "\<lambda>x n. []" "\<lparr>temperature = NaN, humidity = Finite 60\<rparr>"]
  by simp

section \<open>C7: the light reading\<close>

text \<open>
  Claim C7.  For a raw reading in [0, 4095], \<^verbatim>\<open>read_intensity\<close> stores
  \<^verbatim>\<open>map(raw, 0, 4095, 100, 0) / 100.00\<close>, rounded to \<^verbatim>\<open>double\<close> and then to \<^verbatim>\<open>float\<close>; the mapped
  integer lies in [0, 100], the stored intensity is a finite number in [0, 1], and a larger
  raw reading never gives a larger mapped integer or a larger intensity.
\<close>

theorem read_intensity_range_antitone:
  assumes "0 \<le> raw" and "raw \<le> 4095"
  shows
    "intensity (read_intensity pf String_float raw s) =
       to_float (round64 (of_int (map_long raw 0 4095 100 0) / 100)) \<and>
     0 \<le> map_long raw 0 4095 100 0 \<and> map_long raw 0 4095 100 0 \<le> 100 \<and>
     (\<exists>x. intensity (read_intensity pf String_float raw s) = Finite x \<and> 0 \<le> x \<and> x \<le> 1) \<and>
     (\<forall>r2 s2.
        raw < r2 \<longrightarrow> r2 \<le> 4095 \<longrightarrow>
          map_long r2 0 4095 100 0 \<le> map_long raw 0 4095 100 0 \<and>
          float_le (intensity (read_intensity pf String_float r2 s2))
            (intensity (read_intensity pf String_float raw s)))"
proof (intro conjI allI impI)
  let ?m = "map_long raw 0 4095 100 0"
  show "intensity (read_intensity pf String_float raw s) = to_float (round64 (of_int ?m / 100))"
    by (rule read_intensity_value)
  have m: "?m = 100 - (100 * raw) div 4095" using assms(1) by (rule map_long_light)
  have "0 \<le> (100 * raw) div 4095" using assms(1) by (simp add: pos_imp_zdiv_nonneg_iff)
  moreover have "(100 * raw) div 4095 \<le> (100 * 4095) div 4095"
    using assms(2) by (intro zdiv_mono1) simp_all
  ultimately show lo: "0 \<le> ?m" and hi: "?m \<le> 100" by (simp_all add: m)
  have "(0::rat) \<le> of_int ?m / 100" and "(of_int ?m :: rat) / 100 \<le> 1" using lo hi by simp_all
  then obtain z where z: "round64 (of_int ?m / 100) = Finite z" "0 \<le> z" "z \<le> 1"
    by (rule round64_unit)
  from z(2,3) obtain x where "round32 z = Finite x" "0 \<le> x" "x \<le> 1" by (rule round32_unit)
  then show "\<exists>x. intensity (read_intensity pf String_float raw s) = Finite x \<and> 0 \<le> x \<and> x \<le> 1"
    by (simp add: read_intensity_value z(1) to_float_def)
next
  fix r2 s2
  assume r2: "raw < r2" "r2 \<le> 4095"
  let ?m = "map_long raw 0 4095 100 0" and ?m2 = "map_long r2 0 4095 100 0"
  have "(100 * raw) div 4095 \<le> (100 * r2) div 4095" using r2 by (intro zdiv_mono1) simp_all
  then show le: "?m2 \<le> ?m" using assms(1) r2 by (simp add: map_long_light)
  then have "(of_int ?m2 :: rat) / 100 \<le> of_int ?m / 100" by simp
  then have "float_le (round64 (of_int ?m2 / 100)) (round64 (of_int ?m / 100))"
    unfolding round64_def by (intro fround_mono) simp_all
  then show "float_le (intensity (read_intensity pf String_float r2 s2))
      (intensity (read_intensity pf String_float raw s))"
    unfolding read_intensity_value by (rule to_float_mono)
qed

theorem read_intensity_range_antitone_witness:
  "(0::int) \<le> 2047 \<and> (2047::int) \<le> 4095 \<and> (2047::int) < 2048 \<and> (2048::int) \<le> 4095 \<and>
   map_long 2047 0 4095 100 0 = 51 \<and> map_long 2048 0 4095 100 0 = 50 \<and>
   intensity (read_intensity fused_rounding (\<lambda>x n. []) 2047 init_state) = Finite (2139095 / 4194304) \<and>
   intensity (read_intensity fused_rounding (\<lambda>x n. []) 2048 init_state) = Finite (1 / 2) \<and>
   float_le (intensity (read_intensity fused_rounding (\<lambda>x n. []) 2048 init_state))
     (intensity (read_intensity fused_rounding (\<lambda>x n. []) 2047 init_state))"
proof -
  have h: "(0::int) \<le> 2047" "(2047::int) \<le> 4095" by simp_all
  have m: "map_long 2047 0 4095 100 0 = 51" "map_long 2048 0 4095 100 0 = 50"
    by (simp_all add: map_long_def c_div_def)
  have v: "intensity (read_intensity fused_rounding (\<lambda>x n. []) 2047 init_state) = Finite (2139095 / 4194304)"
    "intensity (read_intensity fused_rounding (\<lambda>x n. []) 2048 init_state) = Finite (1 / 2)"
    by (simp_all add: read_intensity_value m to_float_def round64_half round32_half round64_51 round32_51)
  have r: "(2047::int) < 2048" "(2048::int) \<le> 4095" by simp_all
  with read_intensity_range_antitone [OF h, of fused_rounding "\<lambda>x n. []" init_state]
  have "float_le (intensity (read_intensity fused_rounding (\<lambda>x n. []) 2048 init_state))
     (intensity (read_intensity fused_rounding (\<lambda>x n. []) 2047 init_state))" by blast
  with h r m v show ?thesis by (intro conjI)
qed

section \<open>C8: disabling the alarms\<close>

text \<open>
  Claim C8.  After \<^verbatim>\<open>disable_alarms\<close>, \<open>alarm_enabled\<close> is false and each of the three entries is
  \<open>{0, 0, triggered = true}\<close>.  An alarm check afterwards, at any current time (0:00 included),
  returns the state as it is: nothing rings.  The same holds if only the enabled flag were set
  again: every latch is set.
\<close>

theorem disable_alarms_silences:
  assumes len: "length (alarms s) = n_alarms"
  shows
    "\<not> alarm_enabled (disable_alarms s) \<and>
     alarms (disable_alarms s) =
       [\<lparr>alarm.hours = 0, alarm.minutes = 0, triggered = True\<rparr>,
        \<lparr>alarm.hours = 0, alarm.minutes = 0, triggered = True\<rparr>,
        \<lparr>alarm.hours = 0, alarm.minutes = 0, triggered = True\<rparr>] \<and>
     (\<forall>h m reads.
        check_alarm ((disable_alarms s)\<lparr>hours := h, minutes := m\<rparr>) reads =
          Some ((disable_alarms s)\<lparr>hours := h, minutes := m\<rparr>, reads)) \<and>
     (\<forall>h m reads.
        check_alarm ((disable_alarms s)\<lparr>alarm_enabled := True, hours := h, minutes := m\<rparr>) reads =
          Some ((disable_alarms s)\<lparr>alarm_enabled := True, hours := h, minutes := m\<rparr>, reads))"
proof (intro conjI allI)
  let ?d = "disable_alarms s"
  show en: "\<not> alarm_enabled ?d" by (simp add: disable_alarms_result [OF len])
  show a: "alarms ?d =
       [\<lparr>alarm.hours = 0, alarm.minutes = 0, triggered = True\<rparr>,
        \<lparr>alarm.hours = 0, alarm.minutes = 0, triggered = True\<rparr>,
        \<lparr>alarm.hours = 0, alarm.minutes = 0, triggered = True\<rparr>]"
    by (simp add: disable_alarms_result [OF len] n_alarms_def numeral_3_eq_3)
  show "check_alarm (?d\<lparr>hours := h, minutes := m\<rparr>) reads = Some (?d\<lparr>hours := h, minutes := m\<rparr>, reads)"
    for h m reads
    using en by (simp add: check_alarm_def)
  show "check_alarm (?d\<lparr>alarm_enabled := True, hours := h, minutes := m\<rparr>) reads =
      Some (?d\<lparr>alarm_enabled := True, hours := h, minutes := m\<rparr>, reads)" for h m reads
  proof -
    let ?e = "?d\<lparr>alarm_enabled := True, hours := h, minutes := m\<rparr>"
    have "\<not> due ?e (alarms ?e ! j)" if "j < n_alarms" for j
    proof -
      from that have "j = 0 \<or> j = 1 \<or> j = 2" by (auto simp: n_alarms_def)
      then show ?thesis by (auto simp: a due_def)
    qed
    then have "check_alarm_loop 0 ?e reads = Some (?e, reads)"
      by (intro check_alarm_loop_idle) simp
    then show ?thesis by (simp add: check_alarm_def)
  qed
qed

theorem disable_alarms_silences_witness:
  "length (alarms (init_state\<lparr>alarm_enabled := True,
      alarms := [\<lparr>alarm.hours = 8, alarm.minutes = 0, triggered = False\<rparr>,
                 \<lparr>alarm.hours = 13, alarm.minutes = 30, triggered = True\<rparr>,
                 \<lparr>alarm.hours = 0, alarm.minutes = 0, triggered = False\<rparr>]\<rparr>)) = n_alarms \<and>
   disable_alarms (init_state\<lparr>alarm_enabled := True,
      alarms := [\<lparr>alarm.hours = 8, alarm.minutes = 0, triggered = False\<rparr>,
                 \<lparr>alarm.hours = 13, alarm.minutes = 30, triggered = True\<rparr>,
                 \<lparr>alarm.hours = 0, alarm.minutes = 0, triggered = False\<rparr>]\<rparr>) =
     init_state\<lparr>trace := [PrintLine ''Alarms are disabled'' 0 0 2 True]\<rparr> \<and>
   check_alarm (init_state\<lparr>trace := [PrintLine ''Alarms are disabled'' 0 0 2 True],
                            hours := 0, minutes := 0\<rparr>) [LOW] =
     Some (init_state\<lparr>trace := [PrintLine ''Alarms are disabled'' 0 0 2 True],
                         hours := 0, minutes := 0\<rparr>, [LOW])"
proof -
  let ?s = "init_state\<lparr>alarm_enabled := True,
      alarms := [\<lparr>alarm.hours = 8, alarm.minutes = 0, triggered = False\<rparr>,
                 \<lparr>alarm.hours = 13, alarm.minutes = 30, triggered = True\<rparr>,
                 \<lparr>alarm.hours = 0, alarm.minutes = 0, triggered = False\<rparr>]\<rparr>"
  have len: "length (alarms ?s) = n_alarms" by (simp add: n_alarms_def)
  have d: "disable_alarms ?s = init_state\<lparr>trace := [PrintLine ''Alarms are disabled'' 0 0 2 True]\<rparr>"
    by (simp add: disable_alarms_def disable_alarms_loop.simps n_alarms_def print_line_def
        init_state_def)
  from disable_alarms_silences [OF len] len d show ?thesis by (simp only:)
qed

section \<open>C9: every alarm edit clears the latch and enables the alarms\<close>

text \<open>
  Claim C9.  For an alarm index \<open>i\<close> of the three: whenever \<^verbatim>\<open>set_alarm(i)\<close> returns, whatever
  was pressed, \<open>alarms[i].triggered\<close> is false and \<open>alarm_enabled\<close> is true; it returns as soon
  as the presses hold two Ok or Cancel; cancelling both editors changes nothing of the alarms
  but the latch of entry \<open>i\<close>; and after \<^verbatim>\<open>disable_alarms\<close>, cancelling both editors leaves
  entry \<open>i\<close> at 0:00 with the latch clear and the alarms enabled, so that the next check at
  0:00 rings once.
\<close>

theorem set_alarm_always_rearms:
  assumes i: "i < n_alarms" and len: "length (alarms s) = n_alarms"
  shows
    "(\<forall>presses s' rest.
        set_alarm i s presses = Some (s', rest) \<longrightarrow> \<not> triggered (alarms s' ! i) \<and> alarm_enabled s') \<and>
     (\<forall>presses.
        2 \<le> length (filter (\<lambda>b. b = OK \<or> b = CANCEL) presses) \<longrightarrow>
        (\<exists>s' rest. set_alarm i s presses = Some (s', rest))) \<and>
     (\<exists>s'. set_alarm i s (CANCEL # CANCEL # rest) = Some (s', rest) \<and>
        alarms s' = (alarms s)[i := (alarms s ! i)\<lparr>triggered := False\<rparr>] \<and> alarm_enabled s') \<and>
     (\<exists>s'. set_alarm i (disable_alarms s) (CANCEL # CANCEL # rest) = Some (s', rest) \<and>
        alarms s' ! i = \<lparr>alarm.hours = 0, alarm.minutes = 0, triggered = False\<rparr> \<and> alarm_enabled s' \<and>
        (\<forall>reads. \<exists>s''.
           check_alarm (s'\<lparr>hours := 0, minutes := 0\<rparr>) (LOW # reads) = Some (s'', reads) \<and>
           rings s'' = rings s' + 1))"
proof (intro conjI allI impI)
  fix presses s' rest'
  assume run: "set_alarm i s presses = Some (s', rest')"
  from i len have i': "i < length (alarms s)" by simp
  from set_alarm_fields [OF run i'] i' show "\<not> triggered (alarms s' ! i)" by auto
  from set_alarm_fields [OF run i'] show "alarm_enabled s'" by auto
next
  fix presses
  assume "2 \<le> length (filter (\<lambda>b. b = OK \<or> b = CANCEL) presses)"
  then show "\<exists>s' rest. set_alarm i s presses = Some (s', rest)" by (rule set_alarm_returns)
next
  from i len have "i < length (alarms s)" by simp
  then show "\<exists>s'. set_alarm i s (CANCEL # CANCEL # rest) = Some (s', rest) \<and>
        alarms s' = (alarms s)[i := (alarms s ! i)\<lparr>triggered := False\<rparr>] \<and> alarm_enabled s'"
    by (rule set_alarm_cancel_cancel)
next
  let ?d = "disable_alarms s"
  have a: "alarms ?d = replicate n_alarms \<lparr>alarm.hours = 0, alarm.minutes = 0, triggered = True\<rparr>"
    by (simp add: disable_alarms_result [OF len])
  then have i': "i < length (alarms ?d)" using i by simp
  from set_alarm_cancel_cancel [OF i', of rest] obtain s'
    where run: "set_alarm i ?d (CANCEL # CANCEL # rest) = Some (s', rest)"
      and a': "alarms s' = (alarms ?d)[i := (alarms ?d ! i)\<lparr>triggered := False\<rparr>]"
      and en: "alarm_enabled s'" by blast
  from a' i have a'': "alarms s' =
      (replicate n_alarms \<lparr>alarm.hours = 0, alarm.minutes = 0, triggered = True\<rparr>)
        [i := \<lparr>alarm.hours = 0, alarm.minutes = 0, triggered = False\<rparr>]"
    by (simp add: a)
  then have "alarms s' ! i = \<lparr>alarm.hours = 0, alarm.minutes = 0, triggered = False\<rparr>"
    using i by simp
  moreover have "\<forall>reads. \<exists>s''.
           check_alarm (s'\<lparr>hours := 0, minutes := 0\<rparr>) (LOW # reads) = Some (s'', reads) \<and>
           rings s'' = rings s' + 1"
    using rearmed_alarm_rings [OF i en a''] by blast
  ultimately
  show "\<exists>s'. set_alarm i ?d (CANCEL # CANCEL # rest) = Some (s', rest) \<and>
        alarms s' ! i = \<lparr>alarm.hours = 0, alarm.minutes = 0, triggered = False\<rparr> \<and> alarm_enabled s' \<and>
        (\<forall>reads. \<exists>s''.
           check_alarm (s'\<lparr>hours := 0, minutes := 0\<rparr>) (LOW # reads) = Some (s'', reads) \<and>
           rings s'' = rings s' + 1)"
    using run en by blast
qed

theorem set_alarm_always_rearms_witness:
  "(2::nat) < n_alarms \<and> length (alarms init_state) = n_alarms \<and>
   (\<exists>s'. set_alarm 2 init_state (CANCEL # CANCEL # []) = Some (s', []) \<and>
        alarms s' = (alarms init_state)[2 := (alarms init_state ! 2)\<lparr>triggered := False\<rparr>] \<and>
        alarm_enabled s') \<and>
   (\<exists>s'. set_alarm 2 (disable_alarms init_state) (CANCEL # CANCEL # []) = Some (s', []) \<and>
        alarms s' ! 2 = \<lparr>alarm.hours = 0, alarm.minutes = 0, triggered = False\<rparr> \<and> alarm_enabled s' \<and>
        (\<forall>reads. \<exists>s''.
           check_alarm (s'\<lparr>hours := 0, minutes := 0\<rparr>) (LOW # reads) = Some (s'', reads) \<and>
           rings s'' = rings s' + 1))"
proof -
  have "(2::nat) < n_alarms" and "length (alarms init_state) = n_alarms"
    by (simp_all add: n_alarms_def init_state_def)
  from set_alarm_always_rearms [OF this, of "[]"] this show ?thesis by blast
qed

section \<open>C10: the editor does not clamp its initial value\<close>

text \<open>
  Claim C10.  \<^verbatim>\<open>read_value\<close> returns its initial value, whatever the bounds, when Ok is the
  first press.  Such a call happens: from the initial state, Down, Ok, thirty times Up, Ok in
  \<^verbatim>\<open>set_timezone_and_config\<close> commit -1 hour and 30 minutes, an offset of -1800 seconds; the
  next \<^verbatim>\<open>set_timezone_and_config\<close> then starts its minute editor, whose range is 0 to 59, at
  \<open>(-1800 % 3600) / 60 = -30\<close>, and Ok, Ok returns and commits the minute -30.
\<close>

theorem read_value_never_clamps:
  "(\<forall>text init_value max_value min_value s rest.
      read_value text init_value max_value min_value s (OK # rest) =
        Some (init_value, print_line (text @ String_int init_value) 0 0 2 True s, rest)) \<and>
   (\<exists>tr. set_timezone_and_config init_state (DOWN # OK # replicate 30 UP @ [OK]) =
      Some (init_state\<lparr>utc_offset_sec := - 1800, trace := tr\<rparr>, [])) \<and>
   c_div (c_mod (- 1800) 3600) 60 = - 30 \<and>
   (\<forall>s rest.
      set_timezone_and_config (s\<lparr>utc_offset_sec := - 1800\<rparr>) (OK # OK # rest) =
        Some (s\<lparr>utc_offset_sec := - 1800,
                trace := trace s @
                  [PrintLine ''Enter offset hours: 0'' 0 0 2 True,
                   PrintLine ''Enter offset minutes: -30'' 0 0 2 True,
                   ConfigTime (- 1800) UTC_OFFSET_DST NTP_SERVER,
                   PrintLine ''Timezone set to 0:-30'' 0 0 2 True]\<rparr>, rest))"
proof (intro conjI allI)
  show "\<exists>tr. set_timezone_and_config init_state (DOWN # OK # replicate 30 UP @ [OK]) =
      Some (init_state\<lparr>utc_offset_sec := - 1800, trace := tr\<rparr>, [])"
    by (rule timezone_minus_half_hour)
  show "c_div (c_mod (- 1800) 3600) 60 = - 30"
    by (simp add: c_div_def c_mod_def)
  show "read_value prompt init_value max_value min_value s (OK # rest) =
        Some (init_value, print_line (prompt @ String_int init_value) 0 0 2 True s, rest)"
    for prompt init_value max_value min_value s rest
    by (simp add: read_value_def read_value_loop_OK)
  show "set_timezone_and_config (s\<lparr>utc_offset_sec := - 1800\<rparr>) (OK # OK # rest) =
        Some (s\<lparr>utc_offset_sec := - 1800,
                trace := trace s @
                  [PrintLine ''Enter offset hours: 0'' 0 0 2 True,
                   PrintLine ''Enter offset minutes: -30'' 0 0 2 True,
                   ConfigTime (- 1800) UTC_OFFSET_DST NTP_SERVER,
                   PrintLine ''Timezone set to 0:-30'' 0 0 2 True]\<rparr>, rest)" for s rest
    by (simp add: set_timezone_and_config_def c_div_def c_mod_def run_simps)
qed

theorem read_value_never_clamps_witness:
  "read_value ''Enter offset minutes: '' (- 30) 59 0 init_state [OK] =
     Some (- 30, print_line (''Enter offset minutes: '' @ String_int (- 30)) 0 0 2 True init_state, []) \<and>
   utc_offset_sec (fst (the (set_timezone_and_config (init_state\<lparr>utc_offset_sec := - 1800\<rparr>) [OK, OK])))
     = - 1800"
  using read_value_never_clamps by simp

end
